theory Spec2Isabelle
  imports Main "HOL-Library.AList"
begin

section \<open>JavaScript values used by the cluster core\<close>

subsection \<open>Plain objects as property lists\<close>

text \<open>
  A plain object used as a dictionary is the list of its own properties in creation
  order. Enumeration (\<open>Object.keys\<close>, \<open>Object.values\<close>, object spread) lists the own
  keys that are array indices first, in ascending numeric order, and then the other
  keys in creation order.

  A plain object inherits the properties of \<open>Object.prototype\<close>. Reading \<open>obj[k]\<close> for
  a key that is not an own property yields the inherited value when \<open>k\<close> is one of
  \<open>object_prototype_names\<close> (a function, or the prototype object itself for
  \<open>__proto__\<close>) and \<open>undefined\<close> otherwise. The assignment \<open>obj[k] = v\<close> sets the own
  property \<open>k\<close> (an existing key keeps its place, a new key goes to the end), except
  that for \<open>k = __proto__\<close> without an own property of that name it replaces the
  prototype of \<open>obj\<close> and creates no own property. A computed key of an object literal
  always defines an own property.

  Topic names are strings; broker node ids and partition ids are integers (so
  \<open>parseInt(id, 10)\<close> is the identity on them).
\<close>

definition is_digit :: "char \<Rightarrow> bool" where
  "is_digit c = (48 \<le> (of_char c :: int) \<and> (of_char c :: int) \<le> 57)"

definition array_index :: "string \<Rightarrow> int option" where
  "array_index s =
     (if s \<noteq> [] \<and> list_all is_digit s \<and> (length s = 1 \<or> hd s \<noteq> CHR ''0'')
      then (let n = foldl (\<lambda>a c. 10 * a + ((of_char c :: int) - 48)) 0 s
            in if n \<le> 4294967294 then Some n else None)
      else None)"

definition int_array_index :: "int \<Rightarrow> int option" where
  "int_array_index k = (if 0 \<le> k \<and> k \<le> 4294967294 then Some k else None)"

definition own_entries :: "('k \<Rightarrow> int option) \<Rightarrow> ('k \<times> 'v) list \<Rightarrow> ('k \<times> 'v) list" where
  "own_entries idx props =
     sort_key (\<lambda>kv. case idx (fst kv) of Some n \<Rightarrow> n | None \<Rightarrow> 0)
       (filter (\<lambda>kv. idx (fst kv) \<noteq> None) props)
     @ filter (\<lambda>kv. idx (fst kv) = None) props"

definition own_keys :: "('k \<Rightarrow> int option) \<Rightarrow> ('k \<times> 'v) list \<Rightarrow> 'k list" where
  "own_keys idx props = map fst (own_entries idx props)"

definition own_values :: "('k \<Rightarrow> int option) \<Rightarrow> ('k \<times> 'v) list \<Rightarrow> 'v list" where
  "own_values idx props = map snd (own_entries idx props)"

text \<open>The property names that every plain object inherits from \<open>Object.prototype\<close>.\<close>

definition object_prototype_names :: "string list" where
  "object_prototype_names =
     [''constructor'', ''__defineGetter__'', ''__defineSetter__'', ''hasOwnProperty'',
      ''__lookupGetter__'', ''__lookupSetter__'', ''isPrototypeOf'', ''propertyIsEnumerable'',
      ''toString'', ''valueOf'', ''__proto__'', ''toLocaleString'']"

text \<open>The own properties after the assignment \<open>obj[k] = v\<close> of an object or an array \<open>v\<close>.\<close>

definition assign :: "(string \<times> 'v) list \<Rightarrow> string \<Rightarrow> 'v \<Rightarrow> (string \<times> 'v) list" where
  "assign props k v =
     (if k = ''__proto__'' \<and> map_of props k = None then props else AList.update k v props)"

subsection \<open>Sets in insertion order\<close>

definition set_add :: "'a list \<Rightarrow> 'a \<Rightarrow> 'a list" where
  "set_add s x = (if x \<in> set s then s else s @ [x])"

definition set_delete :: "'a list \<Rightarrow> 'a \<Rightarrow> 'a list" where
  "set_delete s x = removeAll x s"

subsection \<open>Errors\<close>

text \<open>
  The errors by kind. \<open>KafkaJSInvalidPartitionMetadata topic partitionId\<close> is the
  \<open>KafkaJSError\<close> with message \<open>Invalid partition metadata\<close>; \<open>ConnectionRefused\<close> is an
  error whose code is \<open>ECONNREFUSED\<close>; \<open>TypeError\<close> is what the language raises for
  reading a property of \<open>undefined\<close>, calling what is not a function or spreading what
  is not iterable; \<open>OtherError\<close> is any other error of a collaborator.
\<close>

datatype error =
    KafkaJSBrokerNotFound
  | KafkaJSLockTimeout
  | KafkaJSMetadataNotLoaded
  | KafkaJSTopicMetadataNotLoaded string
  | KafkaJSInvalidPartitionMetadata string int
  | KafkaJSNonRetriableError
  | ConnectionRefused
  | TypeError
  | OtherError string

fun reduceE :: "('a \<Rightarrow> 'b \<Rightarrow> error + 'a) \<Rightarrow> 'b list \<Rightarrow> 'a \<Rightarrow> error + 'a" where
  "reduceE f [] acc = Inr acc"
| "reduceE f (x # xs) acc =
     (case f acc x of
        Inl e \<Rightarrow> Inl e
      | Inr acc' \<Rightarrow> reduceE f xs acc')"

fun mapE :: "('a \<Rightarrow> error + 'b) \<Rightarrow> 'a list \<Rightarrow> error + 'b list" where
  "mapE f [] = Inr []"
| "mapE f (x # xs) =
     (case f x of
        Inl e \<Rightarrow> Inl e
      | Inr y \<Rightarrow> (case mapE f xs of Inl e \<Rightarrow> Inl e | Inr ys \<Rightarrow> Inr (y # ys)))"

section \<open>SubscriptionState\<close>

text \<open>
  The \<open>partitions\<close> property of a pause or resume request is absent, an array, or
  some other value; the code acts on the first two only.
\<close>

datatype partitions_arg = Undefined | Array "int list" | NotArray

text \<open>
  An entry \<open>{topic, partitions, all}\<close>; \<open>pe_all\<close> is \<open>None\<close> when the entry has no own
  \<open>all\<close> property (\<open>resume\<close> creates such entries).
\<close>

record paused_entry =
  pe_topic :: string
  pe_partitions :: "int list"
  pe_all :: "bool option"

text \<open>
  What \<open>pausedPartitionsByTopic[topic]\<close> can hold: an entry, or a value inherited from
  \<open>Object.prototype\<close> (a function, or \<open>Object.prototype\<close> itself), which the code may
  store back as an own property. An inherited value has no \<open>partitions\<close> property, so
  calling \<open>partitions.add\<close>, \<open>clear\<close>, \<open>delete\<close>, \<open>has\<close> or \<open>values\<close> on it is a
  TypeError. \<open>objectPrototypeAll\<close> tells whether \<open>Object.prototype\<close> has been given an
  \<open>all\<close> property, which only \<open>pause\<close> does, with the value \<open>false\<close>; entries without an
  own \<open>all\<close> property then read \<open>false\<close> instead of \<open>undefined\<close>.
\<close>

datatype paused_value = Entry paused_entry | InheritedValue

record SubscriptionState =
  pausedPartitionsByTopic :: "(string \<times> paused_value) list"
  objectPrototypeAll :: bool

definition SubscriptionState_new :: SubscriptionState where
  "SubscriptionState_new = \<lparr>pausedPartitionsByTopic = [], objectPrototypeAll = False\<rparr>"

definition truthy :: "bool option \<Rightarrow> bool" where
  "truthy b = (b = Some True)"

text \<open>The read \<open>this.pausedPartitionsByTopic[topic]\<close>; \<open>None\<close> is \<open>undefined\<close>.\<close>

definition pausedFor :: "SubscriptionState \<Rightarrow> string \<Rightarrow> paused_value option" where
  "pausedFor this topic =
     (case map_of (pausedPartitionsByTopic this) topic of
        Some v \<Rightarrow> Some v
      | None \<Rightarrow> if topic \<in> set object_prototype_names then Some InheritedValue else None)"

text \<open>The assignment \<open>this.pausedPartitionsByTopic[topic] = pausedForTopic\<close>.\<close>

definition store :: "SubscriptionState \<Rightarrow> string \<Rightarrow> paused_value \<Rightarrow> SubscriptionState" where
  "store this topic v =
     this\<lparr>pausedPartitionsByTopic := assign (pausedPartitionsByTopic this) topic v\<rparr>"

text \<open>
  One step of the \<open>forEach\<close> of \<open>pause\<close>. On an inherited value \<open>partitions.clear()\<close>
  and \<open>partitions.add(partition)\<close> throw; with an empty partitions array nothing is
  added, \<open>all = false\<close> is set on the inherited value (which is \<open>Object.prototype\<close> when
  the topic is \<open>__proto__\<close>) and the value is stored.
\<close>

definition pause_entry :: "SubscriptionState \<Rightarrow> string \<times> partitions_arg \<Rightarrow> error + SubscriptionState" where
  "pause_entry this tp =
     (let topic = fst tp; partitions = snd tp;
          pausedForTopic =
            (case pausedFor this topic of
               Some v \<Rightarrow> v
             | None \<Rightarrow> Entry \<lparr>pe_topic = topic, pe_partitions = [], pe_all = Some False\<rparr>)
      in case partitions of
           Undefined \<Rightarrow>
             (case pausedForTopic of
                Entry e \<Rightarrow> Inr (store this topic (Entry (e\<lparr>pe_partitions := [], pe_all := Some True\<rparr>)))
              | InheritedValue \<Rightarrow> Inl TypeError)
         | Array ps \<Rightarrow>
             (case pausedForTopic of
                Entry e \<Rightarrow>
                  Inr (store this topic
                         (Entry (e\<lparr>pe_partitions := foldl set_add (pe_partitions e) ps,
                                   pe_all := Some False\<rparr>)))
              | InheritedValue \<Rightarrow>
                  if ps = []
                  then Inr (store (this\<lparr>objectPrototypeAll :=
                                           (objectPrototypeAll this \<or> topic = ''__proto__'')\<rparr>)
                              topic InheritedValue)
                  else Inl TypeError)
         | NotArray \<Rightarrow> Inr (store this topic pausedForTopic))"

text \<open>
  \<open>pause\<close> and \<open>resume\<close> stop at the first entry that throws; the entries before it
  have already been applied to the state, so the state is returned together with the
  error.
\<close>

fun pause :: "SubscriptionState \<Rightarrow> (string \<times> partitions_arg) list \<Rightarrow> SubscriptionState \<times> error option" where
  "pause this [] = (this, None)"
| "pause this (tp # rest) =
     (case pause_entry this tp of
        Inl e \<Rightarrow> (this, Some e)
      | Inr this' \<Rightarrow> pause this' rest)"

text \<open>
  One step of the \<open>forEach\<close> of \<open>resume\<close>. The \<open>all\<close> of an inherited value is never
  true; \<open>partitions.clear()\<close> and \<open>partitions.delete(partition)\<close> throw on it.
\<close>

definition resume_entry :: "SubscriptionState \<Rightarrow> string \<times> partitions_arg \<Rightarrow> error + SubscriptionState" where
  "resume_entry this tp =
     (let topic = fst tp; partitions = snd tp;
          pausedForTopic =
            (case pausedFor this topic of
               Some v \<Rightarrow> v
             | None \<Rightarrow> Entry \<lparr>pe_topic = topic, pe_partitions = [], pe_all = None\<rparr>)
      in case partitions of
           Undefined \<Rightarrow>
             (case pausedForTopic of
                Entry e \<Rightarrow> Inr (store this topic (Entry (e\<lparr>pe_partitions := [], pe_all := Some False\<rparr>)))
              | InheritedValue \<Rightarrow> Inl TypeError)
         | Array ps \<Rightarrow>
             (case pausedForTopic of
                Entry e \<Rightarrow>
                  if \<not> truthy (pe_all e)
                  then Inr (store this topic
                              (Entry (e\<lparr>pe_partitions := foldl set_delete (pe_partitions e) ps\<rparr>)))
                  else Inl KafkaJSNonRetriableError
              | InheritedValue \<Rightarrow>
                  if ps = [] then Inr (store this topic InheritedValue) else Inl TypeError)
         | NotArray \<Rightarrow> Inr (store this topic pausedForTopic))"

fun resume :: "SubscriptionState \<Rightarrow> (string \<times> partitions_arg) list \<Rightarrow> SubscriptionState \<times> error option" where
  "resume this [] = (this, None)"
| "resume this (tp # rest) =
     (case resume_entry this tp of
        Inl e \<Rightarrow> (this, Some e)
      | Inr this' \<Rightarrow> resume this' rest)"

text \<open>
  \<open>paused()\<close> maps every own value to \<open>{topic, partitions, all}\<close>; \<open>partitions.values()\<close>
  throws on a stored inherited value.
\<close>

definition paused :: "SubscriptionState \<Rightarrow> error + paused_entry list" where
  "paused this =
     mapE (\<lambda>v. case v of
                  Entry e \<Rightarrow>
                    Inr (e\<lparr>pe_all := (case pe_all e of
                                          Some b \<Rightarrow> Some b
                                        | None \<Rightarrow> if objectPrototypeAll this then Some False else None)\<rparr>)
                | InheritedValue \<Rightarrow> Inl TypeError)
       (own_values array_index (pausedPartitionsByTopic this))"

definition isPaused :: "SubscriptionState \<Rightarrow> string \<Rightarrow> int \<Rightarrow> error + bool" where
  "isPaused this topic partition' =
     (case pausedFor this topic of
        None \<Rightarrow> Inr False
      | Some (Entry e) \<Rightarrow> Inr (truthy (pe_all e) \<or> partition' \<in> set (pe_partitions e))
      | Some InheritedValue \<Rightarrow> Inl TypeError)"

text \<open>
  The operations of a subscription state, and a run of them from a given state; an
  operation that throws leaves the state it had reached.
\<close>

datatype subscription_op =
    Pause "(string \<times> partitions_arg) list"
  | Resume "(string \<times> partitions_arg) list"
  | Paused
  | IsPaused string int

fun run_op :: "SubscriptionState \<Rightarrow> subscription_op \<Rightarrow> SubscriptionState" where
  "run_op this (Pause tps) = fst (pause this tps)"
| "run_op this (Resume tps) = fst (resume this tps)"
| "run_op this Paused = this"
| "run_op this (IsPaused topic partition') = this"

text \<open>
  The invariant: every entry whose \<open>all\<close> flag is true has no partitions. A topic is
  paused as a whole when its entry's \<open>all\<close> flag is true.
\<close>

definition all_implies_empty :: "SubscriptionState \<Rightarrow> bool" where
  "all_implies_empty this =
     list_all (\<lambda>kv. case snd kv of
                      Entry e \<Rightarrow> pe_all e = Some True \<longrightarrow> pe_partitions e = []
                    | InheritedValue \<Rightarrow> True)
       (pausedPartitionsByTopic this)"

definition topic_all :: "SubscriptionState \<Rightarrow> string \<Rightarrow> bool" where
  "topic_all this topic =
     (case pausedFor this topic of
        Some (Entry e) \<Rightarrow> truthy (pe_all e)
      | _ \<Rightarrow> False)"

section \<open>Cluster\<close>

subsection \<open>Metadata snapshot, requests and responses\<close>

record PartitionMetadata =
  partitionId :: int
  leader :: "int option"

record TopicMetadata =
  tm_topic :: string
  partitionMetadata :: "PartitionMetadata list"

record Metadata =
  controllerId :: "int option"
  topicMetadata :: "TopicMetadata list option"

datatype broker = Broker int

text \<open>
  The argument of \<open>fetchTopicsOffset\<close>: \<open>{topic, partitions: [{partition}], fromBeginning}\<close>,
  with a boolean \<open>fromBeginning\<close>.
\<close>

record PartitionData =
  pd_partition :: int

record TopicData =
  td_topic :: string
  td_partitions :: "PartitionData list"
  td_fromBeginning :: bool

text \<open>What \<open>broker.listOffsets\<close> is sent and what it answers.\<close>

record PartitionRequest =
  pr_partition :: int
  pr_timestamp :: int

record TopicRequest =
  tr_topic :: string
  tr_partitions :: "PartitionRequest list"

record PartitionResponse =
  rp_partition :: int
  rp_offset :: "string option"
  rp_errorCode :: int

record TopicResponse =
  rs_topic :: string
  rs_partitions :: "PartitionResponse list"

text \<open>The result of \<open>fetchTopicsOffset\<close>: \<open>[{topic, partitions: [{partition, offset}]}]\<close>.\<close>

record PartitionOffset =
  po_partition :: int
  po_offset :: "string option"

record TopicOffsets =
  to_topic :: string
  to_partitions :: "PartitionOffset list"

subsection \<open>The broker pool and the brokers\<close>

text \<open>
  The broker pool and the brokers are collaborators whose code is outside the cluster
  class; what they answer is a parameter of the model. Every call the cluster makes to
  them is appended to \<open>calls\<close>, with the answer for \<open>listOffsets\<close>.
\<close>

datatype call =
    RefreshMetadata "string list"
  | FindBroker int
  | ListOffsets int int "TopicRequest list" "error + TopicResponse list"

text \<open>
  \<open>pool_refreshMetadata\<close> is \<open>brokerPool.refreshMetadata\<close>: from the current snapshot and the
  topics, the error raised, if any, and the snapshot afterwards. \<open>pool_findBroker\<close> is
  \<open>brokerPool.findBroker\<close> and \<open>broker_listOffsets\<close> is \<open>broker.listOffsets\<close>, with the
  isolation level and the topics of the request. The \<open>metadata\<close> of a cluster is
  \<open>brokerPool.metadata\<close>. When several of the requests that \<open>fetchTopicsOffset\<close> runs
  concurrently fail, \<open>settles_first\<close> names, among the node ids of the failed requests,
  the one whose failure comes first: it is the timing of the brokers' answers that
  decides it.
\<close>

record Env =
  pool_refreshMetadata :: "Metadata option \<Rightarrow> string list \<Rightarrow> error option \<times> Metadata option"
  pool_findBroker :: "int \<Rightarrow> error + broker option"
  broker_listOffsets :: "broker \<Rightarrow> int \<Rightarrow> TopicRequest list \<Rightarrow> error + TopicResponse list"
  settles_first :: "int list \<Rightarrow> int"

record Cluster =
  targetTopics :: "string list"
  metadata :: "Metadata option"
  isolationLevel :: int
  calls :: "call list"

text \<open>Modelled from the spec: the offset sentinels of \<open>../constants\<close>, EARLIEST = -2 and LATEST = -1.\<close>

definition EARLIEST_OFFSET :: int where
  "EARLIEST_OFFSET = - 2"

definition LATEST_OFFSET :: int where
  "LATEST_OFFSET = - 1"

text \<open>Modelled from the spec: \<open>../utils/flatten\<close>, which flattens the list of response lists.\<close>

definition flatten :: "'a list list \<Rightarrow> 'a list" where
  "flatten xss = concat xss"

subsection \<open>Metadata refresh and target topics\<close>

definition refreshMetadata :: "Env \<Rightarrow> Cluster \<Rightarrow> Cluster \<times> error option" where
  "refreshMetadata env this =
     (let r = pool_refreshMetadata env (metadata this) (targetTopics this)
      in (this\<lparr>metadata := snd r,
               calls := calls this @ [RefreshMetadata (targetTopics this)]\<rparr>, fst r))"

definition addMultipleTargetTopics :: "Env \<Rightarrow> Cluster \<Rightarrow> string list \<Rightarrow> Cluster \<times> error option" where
  "addMultipleTargetTopics env this topics =
     (let previousSize = length (targetTopics this);
          this' = this\<lparr>targetTopics := foldl set_add (targetTopics this) topics\<rparr>;
          hasChanged = (previousSize \<noteq> length (targetTopics this') \<or> metadata this' = None)
      in if hasChanged then refreshMetadata env this' else (this', None))"

definition addTargetTopic :: "Env \<Rightarrow> Cluster \<Rightarrow> string \<Rightarrow> Cluster \<times> error option" where
  "addTargetTopic env this topic = addMultipleTargetTopics env this [topic]"

subsection \<open>Broker lookup\<close>

text \<open>
  \<open>findBroker\<close> calls \<open>brokerPool.findBroker\<close> and waits for its answer.
  \<open>findBrokerSettled\<close> is what the method does once the answer \<open>found\<close> has come: it
  returns the broker, or refreshes the metadata after one of three errors and throws
  the error again.
\<close>

definition findBrokerSettled ::
  "Env \<Rightarrow> Cluster \<Rightarrow> error + broker option \<Rightarrow> Cluster \<times> (error + broker option)" where
  "findBrokerSettled env this found =
     (case found of
        Inr b \<Rightarrow> (this, Inr b)
      | Inl e \<Rightarrow>
          if e = KafkaJSBrokerNotFound \<or> e = KafkaJSLockTimeout \<or> e = ConnectionRefused
          then (case refreshMetadata env this of
                  (this', Some e') \<Rightarrow> (this', Inl e')
                | (this', None) \<Rightarrow> (this', Inl e))
          else (this, Inl e))"

definition findBroker :: "Env \<Rightarrow> Cluster \<Rightarrow> int \<Rightarrow> Cluster \<times> (error + broker option)" where
  "findBroker env this nodeId =
     findBrokerSettled env (this\<lparr>calls := calls this @ [FindBroker nodeId]\<rparr>)
       (pool_findBroker env nodeId)"

definition findControllerBroker :: "Env \<Rightarrow> Cluster \<Rightarrow> Cluster \<times> (error + broker)" where
  "findControllerBroker env this =
     (case metadata this of
        None \<Rightarrow> (this, Inl KafkaJSMetadataNotLoaded)
      | Some md \<Rightarrow>
          (case controllerId md of
             None \<Rightarrow> (this, Inl KafkaJSMetadataNotLoaded)
           | Some cid \<Rightarrow>
               (case findBroker env this cid of
                  (this', Inl e) \<Rightarrow> (this', Inl e)
                | (this', Inr None) \<Rightarrow> (this', Inl KafkaJSBrokerNotFound)
                | (this', Inr (Some b)) \<Rightarrow> (this', Inr b))))"

subsection \<open>Leader lookup\<close>

definition findTopicPartitionMetadata :: "Cluster \<Rightarrow> string \<Rightarrow> error + PartitionMetadata list" where
  "findTopicPartitionMetadata this topic =
     (case metadata this of
        None \<Rightarrow> Inl (KafkaJSTopicMetadataNotLoaded topic)
      | Some md \<Rightarrow>
          (case topicMetadata md of
             None \<Rightarrow> Inl (KafkaJSTopicMetadataNotLoaded topic)
           | Some tms \<Rightarrow>
               (case find (\<lambda>t. tm_topic t = topic) tms of
                  Some tm \<Rightarrow> Inr (partitionMetadata tm)
                | None \<Rightarrow> Inr [])))"

text \<open>
  The reducer of \<open>findLeaderForPartitions\<close>. The spread \<open>{...result, [leader]: ...}\<close>
  copies the properties of \<open>result\<close> in enumeration order and then sets the leader's.
\<close>

definition leaderStep ::
  "PartitionMetadata list \<Rightarrow> string \<Rightarrow> (int \<times> int list) list \<Rightarrow> int \<Rightarrow> error + (int \<times> int list) list" where
  "leaderStep pms topic result id' =
     (let partitionId' = id'
      in case find (\<lambda>p. partitionId p = partitionId') pms of
           None \<Rightarrow> Inr result
         | Some md \<Rightarrow>
             (case leader md of
                None \<Rightarrow> Inl (KafkaJSInvalidPartitionMetadata topic partitionId')
              | Some leader' \<Rightarrow>
                  (let current = (case map_of result leader' of Some c \<Rightarrow> c | None \<Rightarrow> [])
                   in Inr (AList.update leader' (current @ [partitionId'])
                             (own_entries int_array_index result)))))"

definition findLeaderForPartitions ::
  "Cluster \<Rightarrow> string \<Rightarrow> int list \<Rightarrow> error + (int \<times> int list) list" where
  "findLeaderForPartitions this topic partitions =
     (case findTopicPartitionMetadata this topic of
        Inl e \<Rightarrow> Inl e
      | Inr pms \<Rightarrow> reduceE (leaderStep pms topic) partitions [])"

subsection \<open>Listing offsets\<close>

definition defaultOffset :: "bool \<Rightarrow> int" where
  "defaultOffset fromBeginning = (if fromBeginning then EARLIEST_OFFSET else LATEST_OFFSET)"

text \<open>
  \<open>mergeTopics\<close>: when \<open>obj\<close> has no own property \<open>topic\<close> and the topic is a property
  name of \<open>Object.prototype\<close>, \<open>obj[topic]\<close> is the inherited value and spreading it
  into the array is a TypeError. Otherwise the spread copies the own properties of
  \<open>obj\<close> in enumeration order and the computed key sets the topic's.
\<close>

definition mergeTopics ::
  "(string \<times> PartitionResponse list) list \<Rightarrow> TopicResponse
     \<Rightarrow> error + (string \<times> PartitionResponse list) list" where
  "mergeTopics obj r =
     (case map_of obj (rs_topic r) of
        Some ps \<Rightarrow> Inr (AList.update (rs_topic r) (ps @ rs_partitions r) (own_entries array_index obj))
      | None \<Rightarrow>
          if rs_topic r \<in> set object_prototype_names then Inl TypeError
          else Inr (AList.update (rs_topic r) (rs_partitions r) (own_entries array_index obj)))"

text \<open>
  \<open>topicConfigurations\<close>: the \<open>fromBeginning\<close> of its own properties, and that of the
  configuration that has replaced its prototype, if one has (the assignment for the
  topic \<open>__proto__\<close> does that).
\<close>

record TopicConfigurations =
  tc_own :: "(string \<times> bool) list"
  tc_proto :: "bool option"

definition setTopicConfiguration :: "TopicConfigurations \<Rightarrow> string \<Rightarrow> bool \<Rightarrow> TopicConfigurations" where
  "setTopicConfiguration tc topic fromBeginning =
     (if topic = ''__proto__'' \<and> map_of (tc_own tc) topic = None
      then tc\<lparr>tc_proto := Some fromBeginning\<rparr>
      else tc\<lparr>tc_own := AList.update topic fromBeginning (tc_own tc)\<rparr>)"

text \<open>
  \<open>const { fromBeginning } = topicConfigurations[topic]\<close>, as the truth value that
  \<open>defaultOffset\<close> tests: that of the topic's own configuration; for an inherited value
  the one it carries, which is \<open>undefined\<close> but for the configuration that replaced
  the prototype; destructuring \<open>undefined\<close> is a TypeError.
\<close>

definition configuredFromBeginning :: "TopicConfigurations \<Rightarrow> string \<Rightarrow> error + bool" where
  "configuredFromBeginning tc topic =
     (case map_of (tc_own tc) topic of
        Some fromBeginning \<Rightarrow> Inr fromBeginning
      | None \<Rightarrow>
          if topic = ''__proto__''
          then Inr (case tc_proto tc of Some fromBeginning \<Rightarrow> fromBeginning | None \<Rightarrow> False)
          else if topic \<in> set object_prototype_names then Inr False
          else if topic = ''fromBeginning'' \<and> tc_proto tc \<noteq> None then Inr False
          else Inl TypeError)"

text \<open>
  The index loop of \<open>fetchTopicsOffset\<close>: one step for each topic descriptor, on the pair
  of \<open>partitionsPerBroker\<close> and \<open>topicConfigurations\<close>.
\<close>

definition indexLeader ::
  "string \<Rightarrow> PartitionData list \<Rightarrow> (int \<times> (string \<times> PartitionData list) list) list
     \<Rightarrow> int \<times> int list \<Rightarrow> (int \<times> (string \<times> PartitionData list) list) list" where
  "indexLeader topic partitions partitionsPerBroker nl =
     (let nodeId = fst nl; leaderPartitions = snd nl;
          forNode = (case map_of partitionsPerBroker nodeId of Some obj \<Rightarrow> obj | None \<Rightarrow> [])
      in AList.update nodeId
           (assign forNode topic
              (filter (\<lambda>p. pd_partition p \<in> set leaderPartitions) partitions))
           partitionsPerBroker)"

definition indexTopic ::
  "Cluster \<Rightarrow> (int \<times> (string \<times> PartitionData list) list) list \<times> TopicConfigurations
     \<Rightarrow> TopicData
     \<Rightarrow> error + (int \<times> (string \<times> PartitionData list) list) list \<times> TopicConfigurations" where
  "indexTopic this acc topicData =
     (let partitionsPerBroker = fst acc; topicConfigurations = snd acc;
          topic = td_topic topicData; partitions = td_partitions topicData;
          fromBeginning = td_fromBeginning topicData
      in case findLeaderForPartitions this topic (map pd_partition partitions) of
           Inl e \<Rightarrow> Inl e
         | Inr partitionsPerLeader \<Rightarrow>
             Inr (foldl (indexLeader topic partitions) partitionsPerBroker
                    (own_entries int_array_index partitionsPerLeader),
                  setTopicConfiguration topicConfigurations topic fromBeginning))"

definition addDefaultOffset ::
  "TopicConfigurations \<Rightarrow> string \<Rightarrow> PartitionData \<Rightarrow> error + PartitionRequest" where
  "addDefaultOffset topicConfigurations topic p =
     (case configuredFromBeginning topicConfigurations topic of
        Inl e \<Rightarrow> Inl e
      | Inr fromBeginning \<Rightarrow>
          Inr \<lparr>pr_partition = pd_partition p, pr_timestamp = defaultOffset fromBeginning\<rparr>)"

definition listOffsetsTopics ::
  "TopicConfigurations \<Rightarrow> (string \<times> PartitionData list) list \<Rightarrow> error + TopicRequest list" where
  "listOffsetsTopics topicConfigurations partitions =
     mapE (\<lambda>tp. case mapE (addDefaultOffset topicConfigurations (fst tp)) (snd tp) of
                   Inl e \<Rightarrow> Inl e
                 | Inr ps \<Rightarrow> Inr \<lparr>tr_topic = fst tp, tr_partitions = ps\<rparr>)
       (own_entries array_index partitions)"

text \<open>
  The requests of \<open>fetchTopicsOffset\<close> run concurrently. Mapping the node ids with the
  asynchronous function runs each request up to its first wait, so
  \<open>brokerPool.findBroker\<close> is called for every node id, in the order of the keys, before
  any answer is looked at. \<open>settleRequest\<close> is the rest of one request, from the answer
  of the broker lookup on: the broker is asked for the offsets of the node's topics;
  calling \<open>listOffsets\<close> on a broker that is not there is a TypeError. \<open>settleRequests\<close>
  runs the rest of every request, whether or not another one has failed, in the order
  in which the requests were started.
\<close>

definition settleRequest ::
  "Env \<Rightarrow> TopicConfigurations \<Rightarrow> Cluster \<Rightarrow> int \<times> (string \<times> PartitionData list) list
     \<Rightarrow> Cluster \<times> (error + TopicResponse list)" where
  "settleRequest env topicConfigurations this np =
     (let nodeId = fst np; partitions = snd np
      in case findBrokerSettled env this (pool_findBroker env nodeId) of
           (this', Inl e) \<Rightarrow> (this', Inl e)
         | (this', Inr None) \<Rightarrow> (this', Inl TypeError)
         | (this', Inr (Some broker)) \<Rightarrow>
             (case listOffsetsTopics topicConfigurations partitions of
                Inl e \<Rightarrow> (this', Inl e)
              | Inr topics \<Rightarrow>
                  (let answer = broker_listOffsets env broker (isolationLevel this') topics
                   in (this'\<lparr>calls := calls this'
                                 @ [ListOffsets nodeId (isolationLevel this') topics answer]\<rparr>,
                       answer))))"

fun settleRequests ::
  "Env \<Rightarrow> TopicConfigurations \<Rightarrow> Cluster \<Rightarrow> (int \<times> (string \<times> PartitionData list) list) list
     \<Rightarrow> Cluster \<times> (error + TopicResponse list) list" where
  "settleRequests env topicConfigurations this [] = (this, [])"
| "settleRequests env topicConfigurations this (np # rest) =
     (case settleRequest env topicConfigurations this np of
        (this', outcome) \<Rightarrow>
          (case settleRequests env topicConfigurations this' rest of
             (this'', outcomes) \<Rightarrow> (this'', outcome # outcomes)))"

text \<open>
  \<open>Promise.all\<close>: the responses in the order of the requests when every request
  succeeds; otherwise the error of the failed request whose failure comes first, as
  \<open>settles_first\<close> names it among the node ids of the failed requests (the first of
  them in the order of the requests if it names none of them).
\<close>

definition rejections :: "int list \<Rightarrow> (error + 'a) list \<Rightarrow> (int \<times> error) list" where
  "rejections nodeIds outcomes =
     concat (map (\<lambda>no. case snd no of Inl e \<Rightarrow> [(fst no, e)] | Inr r \<Rightarrow> [])
               (zip nodeIds outcomes))"

definition fulfilled :: "(error + 'a) list \<Rightarrow> 'a list" where
  "fulfilled outcomes = concat (map (\<lambda>r. case r of Inl e \<Rightarrow> [] | Inr v \<Rightarrow> [v]) outcomes)"

definition promiseAll :: "Env \<Rightarrow> int list \<Rightarrow> (error + 'a) list \<Rightarrow> error + 'a list" where
  "promiseAll env nodeIds outcomes =
     (case rejections nodeIds outcomes of
        [] \<Rightarrow> Inr (fulfilled outcomes)
      | ne # rest \<Rightarrow>
          (case map_of (ne # rest) (settles_first env (map fst (ne # rest))) of
             Some e \<Rightarrow> Inl e
           | None \<Rightarrow> Inl (snd ne)))"

text \<open>The merge of the responses by topic and the projection to \<open>{partition, offset}\<close>.\<close>

definition normalizeResponses :: "TopicResponse list list \<Rightarrow> error + TopicOffsets list" where
  "normalizeResponses responses =
     (case reduceE mergeTopics (flatten responses) [] of
        Inl e \<Rightarrow> Inl e
      | Inr partitionsPerTopic \<Rightarrow>
          Inr (map (\<lambda>tp. \<lparr>to_topic = fst tp,
                          to_partitions =
                            map (\<lambda>p. \<lparr>po_partition = rp_partition p, po_offset = rp_offset p\<rparr>)
                              (snd tp)\<rparr>)
                 (own_entries array_index partitionsPerTopic)))"

definition fetchTopicsOffset ::
  "Env \<Rightarrow> Cluster \<Rightarrow> TopicData list \<Rightarrow> Cluster \<times> (error + TopicOffsets list)" where
  "fetchTopicsOffset env this topics =
     (case reduceE (indexTopic this) topics ([], \<lparr>tc_own = [], tc_proto = None\<rparr>) of
        Inl e \<Rightarrow> (this, Inl e)
      | Inr (partitionsPerBroker, topicConfigurations) \<Rightarrow>
          (let requests = own_entries int_array_index partitionsPerBroker;
               started = this\<lparr>calls := calls this @ map (\<lambda>np. FindBroker (fst np)) requests\<rparr>
           in case settleRequests env topicConfigurations started requests of
                (this', outcomes) \<Rightarrow>
                  (case promiseAll env (map fst requests) outcomes of
                     Inl e \<Rightarrow> (this', Inl e)
                   | Inr responses \<Rightarrow> (this', normalizeResponses responses))))"

subsection \<open>Notions used to state the properties\<close>

text \<open>
  The metadata entry of a partition id of a topic in the snapshot: among the partition
  metadata of the snapshot's entry for the topic (the first with that name), the first
  entry with that id. The leader of the partition is the one this entry names.
\<close>

definition partitionMetadataOf :: "Cluster \<Rightarrow> string \<Rightarrow> int \<Rightarrow> PartitionMetadata option" where
  "partitionMetadataOf this topic id' =
     (case metadata this of
        None \<Rightarrow> None
      | Some md \<Rightarrow>
          (case topicMetadata md of
             None \<Rightarrow> None
           | Some tms \<Rightarrow>
               (case find (\<lambda>tm. tm_topic tm = topic) tms of
                  None \<Rightarrow> None
                | Some tm \<Rightarrow> find (\<lambda>p. partitionId p = id') (partitionMetadata tm))))"

definition leaderOf :: "Cluster \<Rightarrow> string \<Rightarrow> int \<Rightarrow> int option" where
  "leaderOf this topic id' =
     (case partitionMetadataOf this topic id' of
        None \<Rightarrow> None
      | Some m \<Rightarrow> leader m)"

definition leaderIn :: "PartitionMetadata list \<Rightarrow> int \<Rightarrow> int option" where
  "leaderIn pms id' =
     (case find (\<lambda>p. partitionId p = id') pms of
        None \<Rightarrow> None
      | Some m \<Rightarrow> leader m)"

definition lookupList :: "('k \<times> 'v list) list \<Rightarrow> 'k \<Rightarrow> 'v list" where
  "lookupList obj k = (case map_of obj k of Some l \<Rightarrow> l | None \<Rightarrow> [])"

text \<open>The number of metadata refreshes among the calls made.\<close>

definition refreshes :: "call list \<Rightarrow> nat" where
  "refreshes cs = length (filter (\<lambda>c. case c of RefreshMetadata ts \<Rightarrow> True | _ \<Rightarrow> False) cs)"

text \<open>
  The snapshot of scenario S1: brokers 1 and 2, topic \<open>t\<close> with partition 0 led by 1,
  partition 1 led by 2 and partition 2 led by 1; isolation level READ_COMMITTED. In
  \<open>scenario_env\<close> every broker is found and answers offset \<open>X\<close> for partition 0 and \<open>Y\<close>
  for the others; in \<open>lock_timeout_env\<close> connecting to a broker times out on its lock.
  Of several failed requests the one for the first node id fails first.
\<close>

definition scenario_metadata :: Metadata where
  "scenario_metadata =
     \<lparr>controllerId = None,
      topicMetadata = Some
        [\<lparr>tm_topic = ''t'',
          partitionMetadata =
            [\<lparr>partitionId = 0, leader = Some 1\<rparr>,
             \<lparr>partitionId = 1, leader = Some 2\<rparr>,
             \<lparr>partitionId = 2, leader = Some 1\<rparr>]\<rparr>]\<rparr>"

definition scenario_cluster :: Cluster where
  "scenario_cluster =
     \<lparr>targetTopics = [], metadata = Some scenario_metadata, isolationLevel = 1, calls = []\<rparr>"

definition scenario_env :: Env where
  "scenario_env =
     \<lparr>pool_refreshMetadata = (\<lambda>md topics. (None, Some scenario_metadata)),
      pool_findBroker = (\<lambda>nodeId. Inr (Some (Broker nodeId))),
      broker_listOffsets = (\<lambda>b lvl topics.
         Inr (map (\<lambda>t. \<lparr>rs_topic = tr_topic t,
                         rs_partitions =
                           map (\<lambda>p. \<lparr>rp_partition = pr_partition p,
                                      rp_offset = Some (if pr_partition p = 0 then ''X'' else ''Y''),
                                      rp_errorCode = 0\<rparr>) (tr_partitions t)\<rparr>) topics)),
      settles_first = (\<lambda>nodeIds. case nodeIds of [] \<Rightarrow> 0 | n # ns \<Rightarrow> n)\<rparr>"

definition lock_timeout_env :: Env where
  "lock_timeout_env = scenario_env\<lparr>pool_findBroker := (\<lambda>nodeId. Inl KafkaJSLockTimeout)\<rparr>"

text \<open>A snapshot in which partition 0 of topic \<open>t\<close> has no leader.\<close>

definition null_leader_metadata :: Metadata where
  "null_leader_metadata =
     \<lparr>controllerId = None,
      topicMetadata = Some
        [\<lparr>tm_topic = ''t'',
          partitionMetadata =
            [\<lparr>partitionId = 0, leader = None\<rparr>,
             \<lparr>partitionId = 1, leader = Some 2\<rparr>]\<rparr>]\<rparr>"

text \<open>
  A snapshot with two topics: partition 0 of topic \<open>u\<close> is led by broker 1; partition 0
  of topic \<open>t\<close> is led by broker 2 and partition 1 of \<open>t\<close> by broker 1.
\<close>

definition two_topic_cluster :: Cluster where
  "two_topic_cluster =
     \<lparr>targetTopics = [],
      metadata = Some
        \<lparr>controllerId = None,
         topicMetadata = Some
           [\<lparr>tm_topic = ''u'', partitionMetadata = [\<lparr>partitionId = 0, leader = Some 1\<rparr>]\<rparr>,
            \<lparr>tm_topic = ''t'',
             partitionMetadata =
               [\<lparr>partitionId = 0, leader = Some 2\<rparr>,
                \<lparr>partitionId = 1, leader = Some 1\<rparr>]\<rparr>]\<rparr>,
      isolationLevel = 1, calls = []\<rparr>"

text \<open>
  The projection of a response partition to \<open>{partition, offset}\<close>, and the partitions
  that a list of topic responses carries for one topic, in the order of the list.
\<close>

definition projectOffset :: "PartitionResponse \<Rightarrow> PartitionOffset" where
  "projectOffset p = \<lparr>po_partition = rp_partition p, po_offset = rp_offset p\<rparr>"

definition partitionsOfTopic :: "TopicResponse list \<Rightarrow> string \<Rightarrow> PartitionResponse list" where
  "partitionsOfTopic rs topic = concat (map rs_partitions (filter (\<lambda>r. rs_topic r = topic) rs))"

text \<open>
  What the claims say of the requests of \<open>fetchTopicsOffset\<close>, read off the argument
  and the snapshot. A node leads a partition descriptor of a topic when the snapshot
  names it as the leader of that partition; \<open>leaders\<close> are the nodes that lead some
  requested partition. The \<open>fromBeginning\<close> of a topic is that of the last descriptor
  that names it. The partitions requested of a node for a topic are those that the
  node leads among the partitions of the last descriptor of the topic that has any
  (none for the topic \<open>__proto__\<close>, whose assignment to the index stores nothing), and
  \<open>requestFor\<close> gives them their timestamps.
\<close>

definition ledBy :: "Cluster \<Rightarrow> string \<Rightarrow> int \<Rightarrow> PartitionData \<Rightarrow> bool" where
  "ledBy this topic nodeId p = (leaderOf this topic (pd_partition p) = Some nodeId)"

definition leaders :: "Cluster \<Rightarrow> TopicData list \<Rightarrow> int set" where
  "leaders this topics =
     {n. \<exists>td\<in>set topics. \<exists>p\<in>set (td_partitions td). ledBy this (td_topic td) n p}"

definition lastFromBeginning :: "TopicData list \<Rightarrow> string \<Rightarrow> bool option" where
  "lastFromBeginning topics topic =
     map_option td_fromBeginning (find (\<lambda>td. td_topic td = topic) (rev topics))"

definition requestedPartitions ::
  "Cluster \<Rightarrow> TopicData list \<Rightarrow> int \<Rightarrow> string \<Rightarrow> PartitionData list option" where
  "requestedPartitions this topics nodeId topic =
     (if topic = ''__proto__'' then None
      else map_option (\<lambda>td. filter (ledBy this topic nodeId) (td_partitions td))
             (find (\<lambda>td. td_topic td = topic
                          \<and> filter (ledBy this topic nodeId) (td_partitions td) \<noteq> [])
                (rev topics)))"

definition requestFor ::
  "Cluster \<Rightarrow> TopicData list \<Rightarrow> int \<Rightarrow> string \<Rightarrow> PartitionRequest list option" where
  "requestFor this topics nodeId topic =
     map_option
       (map (\<lambda>p. \<lparr>pr_partition = pd_partition p,
                    pr_timestamp = (if lastFromBeginning topics topic = Some True then - 2 else - 1)\<rparr>))
       (requestedPartitions this topics nodeId topic)"

text \<open>
  The partitions that the index \<open>partitionsPerBroker\<close> holds for a node and a topic.
  In a well-formed index the node ids are distinct, and so are the topics of each
  node, none of which is \<open>__proto__\<close>.
\<close>

definition storedPartitions ::
  "(int \<times> (string \<times> PartitionData list) list) list \<Rightarrow> int \<Rightarrow> string \<Rightarrow> PartitionData list option" where
  "storedPartitions partitionsPerBroker nodeId topic =
     (case map_of partitionsPerBroker nodeId of
        None \<Rightarrow> None
      | Some forNode \<Rightarrow> map_of forNode topic)"

definition wellFormedIndex :: "(int \<times> (string \<times> PartitionData list) list) list \<Rightarrow> bool" where
  "wellFormedIndex partitionsPerBroker \<longleftrightarrow>
     distinct (map fst partitionsPerBroker)
     \<and> list_all (\<lambda>np. distinct (map fst (snd np)) \<and> map_of (snd np) ''__proto__'' = None)
         partitionsPerBroker"

text \<open>
  Of a list of calls: the node ids that \<open>listOffsets\<close> was sent to, and the responses
  that came back.
\<close>

definition requestedNodes :: "call list \<Rightarrow> int list" where
  "requestedNodes cs =
     concat (map (\<lambda>c. case c of ListOffsets nodeId lvl req answer \<Rightarrow> [nodeId] | _ \<Rightarrow> []) cs)"

definition answered :: "call list \<Rightarrow> TopicResponse list list" where
  "answered cs =
     concat (map (\<lambda>c. case c of ListOffsets nodeId lvl req (Inr rs) \<Rightarrow> [rs] | _ \<Rightarrow> []) cs)"

text \<open>
  The same brokers, answering with other error codes: \<open>f\<close> gives the error code of each
  partition of each response.
\<close>

definition overwriteErrorCodes :: "(PartitionResponse \<Rightarrow> int) \<Rightarrow> TopicResponse \<Rightarrow> TopicResponse" where
  "overwriteErrorCodes f r =
     r\<lparr>rs_partitions := map (\<lambda>p. p\<lparr>rp_errorCode := f p\<rparr>) (rs_partitions r)\<rparr>"

definition withErrorCodes :: "(PartitionResponse \<Rightarrow> int) \<Rightarrow> Env \<Rightarrow> Env" where
  "withErrorCodes f env =
     env\<lparr>broker_listOffsets := (\<lambda>b lvl req.
            case broker_listOffsets env b lvl req of
              Inl e \<Rightarrow> Inl e
            | Inr rs \<Rightarrow> Inr (map (overwriteErrorCodes f) rs))\<rparr>"

definition overwriteAnswer ::
  "(PartitionResponse \<Rightarrow> int) \<Rightarrow> error + TopicResponse list \<Rightarrow> error + TopicResponse list" where
  "overwriteAnswer f a = (case a of Inl e \<Rightarrow> Inl e | Inr rs \<Rightarrow> Inr (map (overwriteErrorCodes f) rs))"

text \<open>Two cluster states that differ at most in the calls recorded.\<close>

definition same_cluster :: "Cluster \<Rightarrow> Cluster \<Rightarrow> bool" where
  "same_cluster a b \<longleftrightarrow>
     targetTopics a = targetTopics b \<and> metadata a = metadata b
     \<and> isolationLevel a = isolationLevel b"

text \<open>
  The argument of scenario S2, and brokers that answer every partition with error
  code 3 and no offset.
\<close>

definition scenario_topics :: "TopicData list" where
  "scenario_topics =
     [\<lparr>td_topic = ''t'',
       td_partitions = [\<lparr>pd_partition = 0\<rparr>, \<lparr>pd_partition = 1\<rparr>],
       td_fromBeginning = True\<rparr>]"

definition error_code_env :: Env where
  "error_code_env =
     scenario_env\<lparr>broker_listOffsets := (\<lambda>b lvl topics.
         Inr (map (\<lambda>t. \<lparr>rs_topic = tr_topic t,
                         rs_partitions =
                           map (\<lambda>p. \<lparr>rp_partition = pr_partition p, rp_offset = None,
                                      rp_errorCode = 3\<rparr>) (tr_partitions t)\<rparr>) topics))\<rparr>"

text \<open>
  The cluster of scenario S1 with its topic named \<open>constructor\<close>, and the request for
  the first offsets of partitions 0, 1 and 2 of that topic.
\<close>

definition constructor_cluster :: Cluster where
  "constructor_cluster =
     \<lparr>targetTopics = [],
      metadata = Some
        \<lparr>controllerId = None,
         topicMetadata = Some
           [\<lparr>tm_topic = ''constructor'',
             partitionMetadata =
               [\<lparr>partitionId = 0, leader = Some 1\<rparr>,
                \<lparr>partitionId = 1, leader = Some 2\<rparr>,
                \<lparr>partitionId = 2, leader = Some 1\<rparr>]\<rparr>]\<rparr>,
      isolationLevel = 1, calls = []\<rparr>"

definition constructor_topics :: "TopicData list" where
  "constructor_topics =
     [\<lparr>td_topic = ''constructor'',
       td_partitions = [\<lparr>pd_partition = 0\<rparr>, \<lparr>pd_partition = 1\<rparr>, \<lparr>pd_partition = 2\<rparr>],
       td_fromBeginning = True\<rparr>]"

section \<open>Properties of SubscriptionState\<close>

subsection \<open>Property lists and insertion-ordered sets\<close>

lemma set_own_entries: "set (own_entries idx props) = set props"
  by (auto simp: own_entries_def)

lemma set_foldl_set_add: "set (foldl set_add s ps) = set s \<union> set ps"
  by (induction ps arbitrary: s) (auto simp: set_add_def)

lemma set_foldl_set_delete: "set (foldl set_delete s ps) = set s - set ps"
  by (induction ps arbitrary: s) (auto simp: set_delete_def)

lemma update_mem: "(k, v) \<in> set (AList.update k v al)"
  by (induction al) auto

lemma list_all_update:
  "list_all P al \<Longrightarrow> P (k, v) \<Longrightarrow> list_all P (AList.update k v al)"
  by (induction al) auto

lemma list_all_assign:
  "list_all P al \<Longrightarrow> P (k, v) \<Longrightarrow> list_all P (assign al k v)"
  by (simp add: assign_def list_all_update)

lemma map_of_list_all: "list_all P al \<Longrightarrow> map_of al k = Some v \<Longrightarrow> P (k, v)"
  by (induction al) (auto split: if_splits)

lemma map_of_assign_own:
  "map_of al k = Some v \<Longrightarrow> map_of (assign al k w) k = Some w"
  by (simp add: assign_def AList.update_conv')

lemma map_of_assign_new:
  "k \<noteq> ''__proto__'' \<Longrightarrow> map_of (assign al k w) k = Some w"
  by (simp add: assign_def AList.update_conv')

lemma pausedFor_own:
  "map_of (pausedPartitionsByTopic this) t = Some v \<Longrightarrow> pausedFor this t = Some v"
  by (simp add: pausedFor_def)

lemma pausedFor_None:
  "pausedFor this t = None \<longleftrightarrow>
     map_of (pausedPartitionsByTopic this) t = None \<and> t \<notin> set object_prototype_names"
  by (simp add: pausedFor_def split: option.splits)

lemma pausedFor_Entry:
  "pausedFor this t = Some (Entry e) \<longleftrightarrow> map_of (pausedPartitionsByTopic this) t = Some (Entry e)"
  by (simp add: pausedFor_def split: option.splits)

lemma proto_inherited: "''__proto__'' \<in> set object_prototype_names"
  by (simp add: object_prototype_names_def)

subsection \<open>The invariant is kept by every operation\<close>

lemma store_inv:
  assumes "all_implies_empty this"
    and "case v of Entry e \<Rightarrow> pe_all e = Some True \<longrightarrow> pe_partitions e = [] | InheritedValue \<Rightarrow> True"
  shows "all_implies_empty (store this t v)"
  using assms unfolding all_implies_empty_def store_def
  by (simp add: list_all_assign)

lemma prototype_all_inv:
  "all_implies_empty (this\<lparr>objectPrototypeAll := b\<rparr>) = all_implies_empty this"
  by (simp add: all_implies_empty_def)

lemma pausedFor_inv:
  assumes "all_implies_empty this" and "pausedFor this t = Some (Entry e)" and "pe_all e = Some True"
  shows "pe_partitions e = []"
proof -
  from assms(2) have "map_of (pausedPartitionsByTopic this) t = Some (Entry e)"
    by (simp add: pausedFor_Entry)
  with assms(1) have "case snd (t, Entry e) of
       Entry e \<Rightarrow> pe_all e = Some True \<longrightarrow> pe_partitions e = [] | InheritedValue \<Rightarrow> True"
    unfolding all_implies_empty_def by (rule map_of_list_all)
  with assms(3) show ?thesis by simp
qed

lemma pause_entry_inv:
  assumes "all_implies_empty this" and "pause_entry this tp = Inr this'"
  shows "all_implies_empty this'"
proof (cases "snd tp")
  case Undefined
  with assms(2) have "\<exists>e. this' = store this (fst tp) (Entry e) \<and> pe_partitions e = []"
    by (auto simp: pause_entry_def Let_def split: option.splits paused_value.splits)
  with assms(1) show ?thesis by (auto simp: store_inv)
next
  case (Array ps)
  with assms(2) have "(\<exists>e. this' = store this (fst tp) (Entry e) \<and> pe_all e = Some False)
      \<or> this' = store (this\<lparr>objectPrototypeAll :=
                                (objectPrototypeAll this \<or> fst tp = ''__proto__'')\<rparr>)
                  (fst tp) InheritedValue"
    by (auto simp: pause_entry_def Let_def split: option.splits paused_value.splits if_splits)
  with assms(1) show ?thesis by (auto simp: store_inv prototype_all_inv)
next
  case NotArray
  show ?thesis
  proof (cases "pausedFor this (fst tp)")
    case None
    with NotArray assms(2)
    have "this' = store this (fst tp) (Entry \<lparr>pe_topic = fst tp, pe_partitions = [], pe_all = Some False\<rparr>)"
      by (simp add: pause_entry_def Let_def)
    with assms(1) show ?thesis by (simp add: store_inv)
  next
    case (Some v)
    with NotArray assms(2) have s: "this' = store this (fst tp) v"
      by (simp add: pause_entry_def Let_def)
    show ?thesis
    proof (cases v)
      case (Entry e)
      with Some assms(1) have "pe_all e = Some True \<longrightarrow> pe_partitions e = []"
        by (auto dest: pausedFor_inv)
      with s Entry assms(1) show ?thesis by (simp add: store_inv)
    next
      case InheritedValue
      with s assms(1) show ?thesis by (simp add: store_inv)
    qed
  qed
qed

lemma pause_inv: "all_implies_empty this \<Longrightarrow> all_implies_empty (fst (pause this tps))"
  by (induction tps arbitrary: this) (auto split: sum.splits dest: pause_entry_inv)

lemma resume_entry_inv:
  assumes "all_implies_empty this" and "resume_entry this tp = Inr this'"
  shows "all_implies_empty this'"
proof (cases "pausedFor this (fst tp)")
  case None
  with assms(2) have "\<exists>e. this' = store this (fst tp) (Entry e) \<and> pe_all e \<noteq> Some True"
    by (cases "snd tp") (auto simp: resume_entry_def Let_def truthy_def)
  with assms(1) show ?thesis by (auto simp: store_inv)
next
  case (Some v)
  show ?thesis
  proof (cases v)
    case (Entry e)
    with Some assms(1) have e: "pe_all e = Some True \<longrightarrow> pe_partitions e = []"
      by (auto dest: pausedFor_inv)
    from Some Entry assms(2)
    have "\<exists>e'. this' = store this (fst tp) (Entry e')
        \<and> (pe_all e' = Some True \<longrightarrow> pe_partitions e' = [])"
      using e by (cases "snd tp") (auto simp: resume_entry_def Let_def truthy_def split: if_splits)
    with assms(1) show ?thesis by (auto simp: store_inv)
  next
    case InheritedValue
    with Some assms(2) have "this' = store this (fst tp) InheritedValue"
      by (cases "snd tp") (auto simp: resume_entry_def Let_def split: if_splits)
    with assms(1) show ?thesis by (simp add: store_inv)
  qed
qed

lemma resume_inv: "all_implies_empty this \<Longrightarrow> all_implies_empty (fst (resume this tps))"
  by (induction tps arbitrary: this) (auto split: sum.splits dest: resume_entry_inv)

lemma run_op_inv: "all_implies_empty this \<Longrightarrow> all_implies_empty (run_op this op)"
  by (cases op) (simp_all add: pause_inv resume_inv)

lemma run_ops_inv: "all_implies_empty this \<Longrightarrow> all_implies_empty (foldl run_op this ops)"
  by (induction ops arbitrary: this) (simp_all add: run_op_inv)

lemma new_inv: "all_implies_empty SubscriptionState_new"
  by (simp add: all_implies_empty_def SubscriptionState_new_def)

text \<open>
  C7. Whatever sequence of \<open>pause\<close>, \<open>resume\<close>, \<open>paused\<close> and \<open>isPaused\<close> calls is
  run on a freshly constructed subscription state (the calls that throw included),
  every topic entry whose \<open>all\<close> flag is true has an empty partition set.
\<close>

theorem invariant_all_implies_empty:
  "all_implies_empty (foldl run_op SubscriptionState_new ops)"
  by (rule run_ops_inv [OF new_inv])

theorem invariant_all_implies_empty_witness:
  "all_implies_empty
     (foldl run_op SubscriptionState_new
        [Pause [(''t'', Array [1, 2])], IsPaused ''t'' 1, Pause [(''t'', Undefined)],
         Resume [(''t'', Array [0])], Paused])
   \<and> map_of (pausedPartitionsByTopic
        (foldl run_op SubscriptionState_new
           [Pause [(''t'', Array [1, 2])], IsPaused ''t'' 1, Pause [(''t'', Undefined)],
            Resume [(''t'', Array [0])], Paused])) ''t''
       = Some (Entry \<lparr>pe_topic = ''t'', pe_partitions = [], pe_all = Some True\<rparr>)"
proof -
  have "map_of (pausedPartitionsByTopic
        (foldl run_op SubscriptionState_new
           [Pause [(''t'', Array [1, 2])], IsPaused ''t'' 1, Pause [(''t'', Undefined)],
            Resume [(''t'', Array [0])], Paused])) ''t''
       = Some (Entry \<lparr>pe_topic = ''t'', pe_partitions = [], pe_all = Some True\<rparr>)"
    by code_simp
  with invariant_all_implies_empty
         [of "[Pause [(''t'', Array [1, 2])], IsPaused ''t'' 1, Pause [(''t'', Undefined)],
               Resume [(''t'', Array [0])], Paused]"]
  show ?thesis by simp
qed

subsection \<open>Pause and resume\<close>

text \<open>
  For a topic that has no entry and whose name \<open>Object.prototype\<close> does not define,
  pausing partitions 1 and 2 and then resuming them succeeds, leaves the entry
  \<open>{topic: t, partitions: [], all: false}\<close> and no partition of the topic paused.
\<close>

lemma pause_resume_round_trip_absent:
  assumes "pausedFor this t = None"
  shows "snd (pause this [(t, Array [1, 2])]) = None
     \<and> snd (resume (fst (pause this [(t, Array [1, 2])])) [(t, Array [1, 2])]) = None
     \<and> map_of (pausedPartitionsByTopic
                 (fst (resume (fst (pause this [(t, Array [1, 2])])) [(t, Array [1, 2])]))) t
         = Some (Entry \<lparr>pe_topic = t, pe_partitions = [], pe_all = Some False\<rparr>)
     \<and> (\<forall>p. isPaused (fst (resume (fst (pause this [(t, Array [1, 2])])) [(t, Array [1, 2])])) t p
             = Inr False)"
proof -
  from assms have t: "t \<noteq> ''__proto__''"
    using proto_inherited by (auto simp: pausedFor_None)
  define s1 where "s1 = store this t (Entry \<lparr>pe_topic = t, pe_partitions = [1, 2], pe_all = Some False\<rparr>)"
  have p: "pause this [(t, Array [1, 2])] = (s1, None)"
    using assms by (simp add: pause_entry_def Let_def s1_def set_add_def)
  have m1: "map_of (pausedPartitionsByTopic s1) t
      = Some (Entry \<lparr>pe_topic = t, pe_partitions = [1, 2], pe_all = Some False\<rparr>)"
    using t by (simp add: s1_def store_def map_of_assign_new)
  define s2 where "s2 = store s1 t (Entry \<lparr>pe_topic = t, pe_partitions = [], pe_all = Some False\<rparr>)"
  have r: "resume s1 [(t, Array [1, 2])] = (s2, None)"
    using m1 by (simp add: resume_entry_def Let_def pausedFor_own truthy_def s2_def set_delete_def)
  have m2: "map_of (pausedPartitionsByTopic s2) t
      = Some (Entry \<lparr>pe_topic = t, pe_partitions = [], pe_all = Some False\<rparr>)"
    using t by (simp add: s2_def store_def map_of_assign_new)
  then have "\<forall>p. isPaused s2 t p = Inr False"
    by (simp add: isPaused_def pausedFor_own truthy_def)
  with p r m2 show ?thesis by simp
qed

text \<open>
  C6. The round trip fails for the topic named \<open>constructor\<close>, which a fresh state has
  no entry for: \<open>pause([{topic: 'constructor', partitions: [1, 2]}])\<close> throws a
  TypeError and stores nothing, \<open>resume\<close> of the same partitions throws a TypeError as
  well, and so does \<open>isPaused('constructor', 1)\<close>.
\<close>

theorem pause_resume_round_trip_constructor:
  "map_of (pausedPartitionsByTopic SubscriptionState_new) ''constructor'' = None
   \<and> pause SubscriptionState_new [(''constructor'', Array [1, 2])]
       = (SubscriptionState_new, Some TypeError)
   \<and> resume SubscriptionState_new [(''constructor'', Array [1, 2])]
       = (SubscriptionState_new, Some TypeError)
   \<and> isPaused SubscriptionState_new ''constructor'' 1 = Inl TypeError"
  by (simp add: SubscriptionState_new_def pause_entry_def resume_entry_def isPaused_def
        pausedFor_def object_prototype_names_def Let_def)

lemma resume_entry_NonRetriable_iff:
  "resume_entry this (t, p) = Inl KafkaJSNonRetriableError \<longleftrightarrow>
     (\<exists>ps. p = Array ps) \<and> topic_all this t"
  by (cases p)
     (auto simp: resume_entry_def topic_all_def truthy_def Let_def
           split: option.splits paused_value.splits)

lemma resume_entry_TypeError_iff:
  "resume_entry this (t, p) = Inl TypeError \<longleftrightarrow>
     pausedFor this t = Some InheritedValue \<and> (p = Undefined \<or> (\<exists>ps. p = Array ps \<and> ps \<noteq> []))"
  by (cases p)
     (auto simp: resume_entry_def Let_def split: option.splits paused_value.splits)

lemma resume_entry_error_kind:
  "resume_entry this tp = Inl e \<Longrightarrow> e = KafkaJSNonRetriableError \<or> e = TypeError"
  by (cases "snd tp")
     (auto simp: resume_entry_def Let_def split: option.splits paused_value.splits if_splits)

text \<open>
  \<open>resume\<close> raises NonRetriable exactly when it reaches an entry with a partitions
  array whose topic is, at that moment, paused with \<open>all = true\<close>.
\<close>

lemma resume_raises_NonRetriable_iff:
  "snd (resume this tps) = Some KafkaJSNonRetriableError \<longleftrightarrow>
     (\<exists>pre t ps post. tps = pre @ (t, Array ps) # post
        \<and> snd (resume this pre) = None \<and> topic_all (fst (resume this pre)) t)"
proof (induction tps arbitrary: this)
  case Nil
  show ?case by simp
next
  case (Cons tp rest)
  obtain t0 p0 where tp: "tp = (t0, p0)" by (cases tp)
  show ?case
  proof (cases "resume_entry this tp")
    case (Inl e)
    have "(\<exists>pre t ps post. tp # rest = pre @ (t, Array ps) # post
        \<and> snd (resume this pre) = None \<and> topic_all (fst (resume this pre)) t)
      \<longleftrightarrow> ((\<exists>ps. p0 = Array ps) \<and> topic_all this t0)"
      (is "?L \<longleftrightarrow> ?R")
    proof
      assume ?L
      then obtain pre t ps post where h: "tp # rest = pre @ (t, Array ps) # post"
        "snd (resume this pre) = None" "topic_all (fst (resume this pre)) t"
        by blast
      show ?R
      proof (cases pre)
        case Nil
        with h tp show ?thesis by auto
      next
        case (Cons a pre')
        with h have "a = tp" by simp
        with h(2) Cons Inl show ?thesis by simp
      qed
    next
      assume ?R
      then obtain ps where "tp = (t0, Array ps)" "topic_all this t0"
        using tp by auto
      then have "tp # rest = [] @ (t0, Array ps) # rest
          \<and> snd (resume this []) = None \<and> topic_all (fst (resume this [])) t0"
        by simp
      then show ?L by blast
    qed
    with Inl resume_entry_NonRetriable_iff [of this t0 p0] show ?thesis
      by (simp add: tp)
  next
    case (Inr this')
    have no_fail: "\<not> ((\<exists>ps. p0 = Array ps) \<and> topic_all this t0)"
      using Inr resume_entry_NonRetriable_iff [of this t0 p0] by (auto simp: tp)
    have "(\<exists>pre t ps post. tp # rest = pre @ (t, Array ps) # post
        \<and> snd (resume this pre) = None \<and> topic_all (fst (resume this pre)) t)
      \<longleftrightarrow> (\<exists>pre t ps post. rest = pre @ (t, Array ps) # post
        \<and> snd (resume this' pre) = None \<and> topic_all (fst (resume this' pre)) t)"
      (is "?L \<longleftrightarrow> ?R")
    proof
      assume ?L
      then obtain pre t ps post where h: "tp # rest = pre @ (t, Array ps) # post"
        "snd (resume this pre) = None" "topic_all (fst (resume this pre)) t"
        by blast
      show ?R
      proof (cases pre)
        case Nil
        with h no_fail tp show ?thesis by auto
      next
        case (Cons a pre')
        with h have "a = tp" "rest = pre' @ (t, Array ps) # post" by auto
        with h Cons Inr show ?thesis by auto
      qed
    next
      assume ?R
      then obtain pre t ps post where h: "rest = pre @ (t, Array ps) # post"
        "snd (resume this' pre) = None" "topic_all (fst (resume this' pre)) t"
        by blast
      then have "tp # rest = (tp # pre) @ (t, Array ps) # post
        \<and> snd (resume this (tp # pre)) = None \<and> topic_all (fst (resume this (tp # pre))) t"
        using Inr by simp
      then show ?L by blast
    qed
    with Cons.IH [of this'] Inr show ?thesis by simp
  qed
qed

text \<open>
  The only other error of \<open>resume\<close> is the TypeError. An entry raises it exactly when
  the value found for its topic is an inherited one and the partitions are absent or
  a non-empty array.
\<close>

lemma resume_error_kind:
  "snd (resume this tps) = None \<or> snd (resume this tps) = Some KafkaJSNonRetriableError
     \<or> snd (resume this tps) = Some TypeError"
proof (induction tps arbitrary: this)
  case Nil
  show ?case by simp
next
  case (Cons tp rest)
  show ?case
  proof (cases "resume_entry this tp")
    case (Inl e)
    with resume_entry_error_kind [of this tp e] show ?thesis by auto
  next
    case (Inr this')
    with Cons.IH [of this'] show ?thesis by simp
  qed
qed

lemma resume_single:
  "snd (resume this [(t, p)])
     = (if (\<exists>ps. p = Array ps) \<and> topic_all this t then Some KafkaJSNonRetriableError
        else if pausedFor this t = Some InheritedValue
                \<and> (p = Undefined \<or> (\<exists>ps. p = Array ps \<and> ps \<noteq> []))
        then Some TypeError else None)"
proof (cases "resume_entry this (t, p)")
  case (Inl e)
  with resume_entry_error_kind [of this "(t, p)" e]
    resume_entry_NonRetriable_iff [of this t p] resume_entry_TypeError_iff [of this t p]
  show ?thesis by (auto simp: topic_all_def)
next
  case (Inr this')
  with resume_entry_NonRetriable_iff [of this t p] resume_entry_TypeError_iff [of this t p]
  show ?thesis by auto
qed

lemma pause_Undefined_Entry:
  assumes "pausedFor this t \<noteq> Some InheritedValue"
  shows "snd (pause this [(t, Undefined)]) = None \<and> topic_all (fst (pause this [(t, Undefined)])) t"
proof -
  from assms have t: "map_of (pausedPartitionsByTopic this) t = None \<longrightarrow> t \<noteq> ''__proto__''"
    using proto_inherited by (auto simp: pausedFor_def split: option.splits)
  from assms have "\<exists>e. pause this [(t, Undefined)] = (store this t (Entry e), None)
      \<and> pe_all e = Some True"
    by (cases "pausedFor this t")
       (auto simp: pause_entry_def Let_def split: paused_value.splits)
  then obtain e where e: "pause this [(t, Undefined)] = (store this t (Entry e), None)"
      "pe_all e = Some True"
    by blast
  have "map_of (pausedPartitionsByTopic (store this t (Entry e))) t = Some (Entry e)"
    using t by (cases "map_of (pausedPartitionsByTopic this) t")
      (simp_all add: store_def map_of_assign_own map_of_assign_new)
  with e show ?thesis
    by (simp add: topic_all_def pausedFor_own truthy_def)
qed

text \<open>
  Scenario S5 from every state in which the topic does not read an inherited value:
  \<open>pause([{topic: t}])\<close> followed by \<open>resume([{topic: t, partitions: ps}])\<close> raises
  NonRetriable.
\<close>

lemma resume_after_pause_all:
  assumes "pausedFor this t \<noteq> Some InheritedValue"
  shows "snd (resume (fst (pause this [(t, Undefined)])) [(t, Array ps)])
           = Some KafkaJSNonRetriableError"
proof -
  from pause_Undefined_Entry [OF assms]
  have "topic_all (fst (pause this [(t, Undefined)])) t" by (rule conjunct2)
  then show ?thesis unfolding resume_single by simp
qed

text \<open>
  C4. \<open>resume\<close> raises an error that is not NonRetriable where it should raise none:
  on a fresh state \<open>resume([{topic: 'constructor'}])\<close>, with the partitions absent,
  throws a TypeError, and so does \<open>resume([{topic: 'constructor', partitions: [0]}])\<close>,
  although the topic is not paused with \<open>all = true\<close>.
\<close>

theorem resume_constructor_TypeError:
  "\<not> topic_all SubscriptionState_new ''constructor''
   \<and> resume SubscriptionState_new [(''constructor'', Undefined)]
       = (SubscriptionState_new, Some TypeError)
   \<and> resume SubscriptionState_new [(''constructor'', Array [0])]
       = (SubscriptionState_new, Some TypeError)"
  by (simp add: SubscriptionState_new_def resume_entry_def topic_all_def
        pausedFor_def object_prototype_names_def Let_def)

lemma isPaused_all: "topic_all this t \<Longrightarrow> isPaused this t p = Inr True"
  by (auto simp: topic_all_def isPaused_def split: option.splits paused_value.splits)

lemma pause_Array_after_all:
  assumes "all_implies_empty this" "topic_all this t"
  shows "snd (pause this [(t, Array ps)]) = None
     \<and> (\<exists>e. map_of (pausedPartitionsByTopic (fst (pause this [(t, Array ps)]))) t = Some (Entry e)
            \<and> pe_all e = Some False \<and> set (pe_partitions e) = set ps)"
proof -
  from assms(2) obtain e0 where e0: "pausedFor this t = Some (Entry e0)" "pe_all e0 = Some True"
    by (auto simp: topic_all_def truthy_def split: option.splits paused_value.splits)
  with assms(1) have empty: "pe_partitions e0 = []"
    by (auto dest: pausedFor_inv)
  from e0 have own: "map_of (pausedPartitionsByTopic this) t = Some (Entry e0)"
    by (simp add: pausedFor_Entry)
  from e0 have "pause this [(t, Array ps)]
      = (store this t (Entry (e0\<lparr>pe_partitions := foldl set_add (pe_partitions e0) ps,
                                 pe_all := Some False\<rparr>)), None)"
    by (simp add: pause_entry_def Let_def)
  with own empty show ?thesis
    by (simp add: store_def map_of_assign_own set_foldl_set_add)
qed

text \<open>
  C9. In a state reached by any run of operations in which topic \<open>t\<close> is paused with
  \<open>all = true\<close> (so every partition of \<open>t\<close> counts as paused), \<open>pause\<close> with an explicit
  partitions array \<open>ps\<close> for \<open>t\<close> succeeds and sets the entry's \<open>all\<close> flag to false, and
  afterwards \<open>isPaused(t, p)\<close> holds exactly for the partitions \<open>p\<close> in \<open>ps\<close>.
\<close>

theorem pause_partitions_after_pause_all:
  assumes "this = foldl run_op SubscriptionState_new ops" and "topic_all this t"
  shows "(\<forall>p. isPaused this t p = Inr True)
     \<and> snd (pause this [(t, Array ps)]) = None
     \<and> (\<exists>e. map_of (pausedPartitionsByTopic (fst (pause this [(t, Array ps)]))) t = Some (Entry e)
            \<and> pe_all e = Some False)
     \<and> (\<forall>p. isPaused (fst (pause this [(t, Array ps)])) t p = Inr (p \<in> set ps))"
proof -
  from assms(1) have inv: "all_implies_empty this"
    by (simp add: run_ops_inv new_inv)
  from pause_Array_after_all [OF inv assms(2), of ps]
  obtain e where ok: "snd (pause this [(t, Array ps)]) = None"
    and e: "map_of (pausedPartitionsByTopic (fst (pause this [(t, Array ps)]))) t = Some (Entry e)"
      "pe_all e = Some False" "set (pe_partitions e) = set ps"
    by blast
  then have "\<forall>p. isPaused (fst (pause this [(t, Array ps)])) t p = Inr (p \<in> set ps)"
    by (simp add: isPaused_def pausedFor_own truthy_def)
  with ok e assms(2) show ?thesis by (simp add: isPaused_all)
qed

theorem pause_partitions_after_pause_all_witness:
  "topic_all (foldl run_op SubscriptionState_new [Pause [(''t'', Undefined)]]) ''t''
   \<and> isPaused (foldl run_op SubscriptionState_new [Pause [(''t'', Undefined)]]) ''t'' 4 = Inr True
   \<and> isPaused (fst (pause (foldl run_op SubscriptionState_new [Pause [(''t'', Undefined)]])
                  [(''t'', Array [3])])) ''t'' 3 = Inr True
   \<and> isPaused (fst (pause (foldl run_op SubscriptionState_new [Pause [(''t'', Undefined)]])
                    [(''t'', Array [3])])) ''t'' 4 = Inr False"
proof -
  have a: "topic_all (foldl run_op SubscriptionState_new [Pause [(''t'', Undefined)]]) ''t''"
    by code_simp
  from pause_partitions_after_pause_all [OF refl a, of "[3]"] a
  show ?thesis by simp
qed

section \<open>Properties of Cluster\<close>

subsection \<open>Enumeration of property lists\<close>

lemma distinct_own_entries:
  "distinct (map fst props) \<Longrightarrow> distinct (map fst (own_entries idx props))"
  by (auto simp: own_entries_def distinct_map inj_on_def)

lemma map_of_own_entries:
  "distinct (map fst props) \<Longrightarrow> map_of (own_entries idx props) = map_of props"
  by (simp add: map_of_inject_set distinct_own_entries set_own_entries)

subsection \<open>Target topics\<close>

lemma length_foldl_set_add_le: "length s \<le> length (foldl set_add s ts)"
proof (induction ts arbitrary: s)
  case Nil
  show ?case by simp
next
  case (Cons t ts)
  have "length s \<le> length (set_add s t)" by (simp add: set_add_def)
  also have "\<dots> \<le> length (foldl set_add (set_add s t) ts)" by (rule Cons.IH)
  finally show ?case by simp
qed

lemma length_foldl_set_add_eq:
  "length (foldl set_add s ts) = length s \<longleftrightarrow> set ts \<subseteq> set s"
proof (induction ts arbitrary: s)
  case Nil
  show ?case by simp
next
  case (Cons t ts)
  show ?case
  proof (cases "t \<in> set s")
    case True
    then have "set_add s t = s" by (simp add: set_add_def)
    with Cons.IH [of s] True show ?thesis by simp
  next
    case False
    then have "length (set_add s t) = Suc (length s)" by (simp add: set_add_def)
    with length_foldl_set_add_le [of "set_add s t" ts]
    have "length (foldl set_add (set_add s t) ts) \<noteq> length s" by simp
    with False show ?thesis by simp
  qed
qed

text \<open>
  C5. \<open>addMultipleTargetTopics(topics)\<close> makes exactly one call to the metadata refresh,
  after the union, when some given topic was not in the target set or the snapshot is
  absent, and makes no call otherwise; likewise \<open>addTargetTopic(topic)\<close> makes exactly
  one refresh when \<open>topic\<close> was not targeted or the snapshot is absent, and none when it
  was targeted and a snapshot is present. Afterwards the target set is the union.
\<close>

theorem addTargetTopic_refresh:
  "calls (fst (addMultipleTargetTopics env this topics))
     = calls this @
         (if (\<exists>t\<in>set topics. t \<notin> set (targetTopics this)) \<or> metadata this = None
          then [RefreshMetadata (foldl set_add (targetTopics this) topics)] else [])
   \<and> refreshes (calls (fst (addMultipleTargetTopics env this topics)))
     = refreshes (calls this) +
         (if (\<exists>t\<in>set topics. t \<notin> set (targetTopics this)) \<or> metadata this = None
          then 1 else 0)
   \<and> refreshes (calls (fst (addTargetTopic env this topic)))
     = refreshes (calls this) +
         (if topic \<notin> set (targetTopics this) \<or> metadata this = None then 1 else 0)
   \<and> set (targetTopics (fst (addMultipleTargetTopics env this topics)))
     = set (targetTopics this) \<union> set topics"
proof -
  have changed: "\<And>ts. (length (targetTopics this) \<noteq> length (foldl set_add (targetTopics this) ts))
      \<longleftrightarrow> (\<exists>t\<in>set ts. t \<notin> set (targetTopics this))"
  proof -
    fix ts
    have "(length (foldl set_add (targetTopics this) ts) = length (targetTopics this))
        \<longleftrightarrow> set ts \<subseteq> set (targetTopics this)"
      by (rule length_foldl_set_add_eq)
    then show "(length (targetTopics this) \<noteq> length (foldl set_add (targetTopics this) ts))
      \<longleftrightarrow> (\<exists>t\<in>set ts. t \<notin> set (targetTopics this))"
      by (metis subsetI subsetD)
  qed
  have c: "\<And>ts. calls (fst (addMultipleTargetTopics env this ts))
     = calls this @
         (if (\<exists>t\<in>set ts. t \<notin> set (targetTopics this)) \<or> metadata this = None
          then [RefreshMetadata (foldl set_add (targetTopics this) ts)] else [])"
  proof -
    fix ts
    show "calls (fst (addMultipleTargetTopics env this ts))
     = calls this @
         (if (\<exists>t\<in>set ts. t \<notin> set (targetTopics this)) \<or> metadata this = None
          then [RefreshMetadata (foldl set_add (targetTopics this) ts)] else [])"
    proof (cases "(\<exists>t\<in>set ts. t \<notin> set (targetTopics this)) \<or> metadata this = None")
      case True
      with changed [of ts]
      have "length (targetTopics this) \<noteq> length (foldl set_add (targetTopics this) ts)
          \<or> metadata this = None"
        by simp
      with True show ?thesis
        by (simp add: addMultipleTargetTopics_def refreshMetadata_def Let_def)
    next
      case False
      with changed [of ts]
      have "length (targetTopics this) = length (foldl set_add (targetTopics this) ts)
          \<and> metadata this \<noteq> None"
        by simp
      with False show ?thesis
        by (simp add: addMultipleTargetTopics_def refreshMetadata_def Let_def)
    qed
  qed
  have t: "set (targetTopics (fst (addMultipleTargetTopics env this topics)))
     = set (targetTopics this) \<union> set topics"
    by (simp add: addMultipleTargetTopics_def refreshMetadata_def Let_def set_foldl_set_add)
  show ?thesis
    using c [of topics] c [of "[topic]"] t
    by (simp add: refreshes_def addTargetTopic_def)
qed

theorem addTargetTopic_refresh_witness:
  "''t'' \<notin> set (targetTopics scenario_cluster)
   \<and> calls (fst (addTargetTopic scenario_env scenario_cluster ''t'')) = [RefreshMetadata [''t'']]
   \<and> refreshes (calls (fst (addTargetTopic scenario_env scenario_cluster ''t''))) = 1
   \<and> refreshes (calls (fst (addTargetTopic scenario_env
        (fst (addTargetTopic scenario_env scenario_cluster ''t'')) ''t''))) = 1
   \<and> refreshes (calls (fst (addTargetTopic scenario_env
        (scenario_cluster\<lparr>targetTopics := [''t''], metadata := None\<rparr>) ''t''))) = 1"
proof -
  have a: "''t'' \<notin> set (targetTopics scenario_cluster)"
    by (simp add: scenario_cluster_def)
  have b: "calls (fst (addTargetTopic scenario_env scenario_cluster ''t'')) = [RefreshMetadata [''t'']]"
    by code_simp
  have c: "''t'' \<in> set (targetTopics (fst (addTargetTopic scenario_env scenario_cluster ''t'')))"
    by code_simp
  have d: "metadata (fst (addTargetTopic scenario_env scenario_cluster ''t'')) \<noteq> None"
    by code_simp
  have e: "refreshes (calls scenario_cluster) = 0"
    by (simp add: scenario_cluster_def refreshes_def)
  from addTargetTopic_refresh [of scenario_env scenario_cluster "[]" "''t''"]
       addTargetTopic_refresh
         [of scenario_env "fst (addTargetTopic scenario_env scenario_cluster ''t'')" "[]" "''t''"]
       addTargetTopic_refresh
         [of scenario_env "scenario_cluster\<lparr>targetTopics := [''t''], metadata := None\<rparr>" "[]" "''t''"]
       a b c d e
  show ?thesis by (simp add: refreshes_def)
qed

subsection \<open>Controller lookup\<close>

text \<open>
  C8, as the claim states it, fails where the broker lookup itself raises: with a
  controller id in the snapshot and a broker pool whose connection attempt times out
  on the lock, \<open>findControllerBroker\<close> fails with LockTimeout, which is neither a broker
  nor BrokerNotFound.
\<close>

theorem findControllerBroker_counterexample:
  "snd (findControllerBroker lock_timeout_env
          (scenario_cluster\<lparr>metadata := Some (scenario_metadata\<lparr>controllerId := Some 1\<rparr>)\<rparr>))
     = Inl KafkaJSLockTimeout"
  by code_simp

text \<open>
  C8, amended. \<open>findControllerBroker\<close> fails with MetadataNotLoaded and leaves the cluster
  as it was, no call made, whenever the snapshot is absent or its controller id is
  null or undefined. Otherwise it calls \<open>findBroker\<close> on the controller id and returns
  the broker obtained, fails BrokerNotFound when \<open>findBroker\<close> yields no broker, and fails
  with the error of \<open>findBroker\<close> when \<open>findBroker\<close> raises.
\<close>

theorem findControllerBroker_cases:
  "(metadata this = None \<or> (\<exists>md. metadata this = Some md \<and> controllerId md = None)
      \<longrightarrow> findControllerBroker env this = (this, Inl KafkaJSMetadataNotLoaded))
   \<and> (\<forall>md cid this'. metadata this = Some md \<and> controllerId md = Some cid \<longrightarrow>
        (\<forall>b. findBroker env this cid = (this', Inr (Some b))
              \<longrightarrow> findControllerBroker env this = (this', Inr b))
      \<and> (findBroker env this cid = (this', Inr None)
              \<longrightarrow> findControllerBroker env this = (this', Inl KafkaJSBrokerNotFound))
      \<and> (\<forall>e. findBroker env this cid = (this', Inl e)
              \<longrightarrow> findControllerBroker env this = (this', Inl e)))"
  by (auto simp: findControllerBroker_def)

theorem findControllerBroker_cases_witness:
  "metadata scenario_cluster = Some scenario_metadata
   \<and> controllerId scenario_metadata = None
   \<and> findControllerBroker scenario_env scenario_cluster
       = (scenario_cluster, Inl KafkaJSMetadataNotLoaded)
   \<and> findBroker scenario_env
        (scenario_cluster\<lparr>metadata := Some (scenario_metadata\<lparr>controllerId := Some 1\<rparr>)\<rparr>) 1
       = (scenario_cluster\<lparr>metadata := Some (scenario_metadata\<lparr>controllerId := Some 1\<rparr>),
                           calls := [FindBroker 1]\<rparr>, Inr (Some (Broker 1)))
   \<and> findControllerBroker scenario_env
        (scenario_cluster\<lparr>metadata := Some (scenario_metadata\<lparr>controllerId := Some 1\<rparr>)\<rparr>)
       = (scenario_cluster\<lparr>metadata := Some (scenario_metadata\<lparr>controllerId := Some 1\<rparr>),
                           calls := [FindBroker 1]\<rparr>, Inr (Broker 1))"
proof -
  have a: "metadata scenario_cluster = Some scenario_metadata"
    by (simp add: scenario_cluster_def)
  have b: "controllerId scenario_metadata = None"
    by (simp add: scenario_metadata_def)
  have c: "metadata (scenario_cluster\<lparr>metadata := Some (scenario_metadata\<lparr>controllerId := Some 1\<rparr>)\<rparr>)
      = Some (scenario_metadata\<lparr>controllerId := Some 1\<rparr>)"
    by simp
  have d: "controllerId (scenario_metadata\<lparr>controllerId := Some 1\<rparr>) = Some 1"
    by simp
  have e: "findBroker scenario_env
        (scenario_cluster\<lparr>metadata := Some (scenario_metadata\<lparr>controllerId := Some 1\<rparr>)\<rparr>) 1
       = (scenario_cluster\<lparr>metadata := Some (scenario_metadata\<lparr>controllerId := Some 1\<rparr>),
                           calls := [FindBroker 1]\<rparr>, Inr (Some (Broker 1)))"
    by (simp add: findBroker_def findBrokerSettled_def scenario_env_def scenario_cluster_def)
  from findControllerBroker_cases [of scenario_cluster scenario_env] a b
  have f: "findControllerBroker scenario_env scenario_cluster
       = (scenario_cluster, Inl KafkaJSMetadataNotLoaded)"
    by blast
  from findControllerBroker_cases
         [of "scenario_cluster\<lparr>metadata := Some (scenario_metadata\<lparr>controllerId := Some 1\<rparr>)\<rparr>"
             scenario_env] c d e
  have g: "findControllerBroker scenario_env
        (scenario_cluster\<lparr>metadata := Some (scenario_metadata\<lparr>controllerId := Some 1\<rparr>)\<rparr>)
       = (scenario_cluster\<lparr>metadata := Some (scenario_metadata\<lparr>controllerId := Some 1\<rparr>),
                           calls := [FindBroker 1]\<rparr>, Inr (Broker 1))"
    by blast
  from a b e f g show ?thesis by blast
qed

subsection \<open>Leader lookup\<close>

lemma leaderStep_cases:
  "leaderStep pms topic result id' =
     (case find (\<lambda>p. partitionId p = id') pms of
        None \<Rightarrow> Inr result
      | Some m \<Rightarrow>
          (case leader m of
             None \<Rightarrow> Inl (KafkaJSInvalidPartitionMetadata topic id')
           | Some l \<Rightarrow> Inr (AList.update l (lookupList result l @ [id'])
                             (own_entries int_array_index result))))"
  by (simp add: leaderStep_def lookupList_def Let_def split: option.splits)

lemma leaderStep_ok:
  assumes "leaderStep pms topic result id' = Inr r" and "distinct (map fst result)"
  shows "distinct (map fst r)"
    and "lookupList r n = lookupList result n @ (if leaderIn pms id' = Some n then [id'] else [])"
    and "fst ` set r = fst ` set result \<union> {n. leaderIn pms id' = Some n}"
proof -
  show "distinct (map fst r)"
    using assms
    by (auto simp: leaderStep_cases distinct_update distinct_own_entries split: option.splits)
  show "lookupList r n = lookupList result n @ (if leaderIn pms id' = Some n then [id'] else [])"
  proof (cases "find (\<lambda>p. partitionId p = id') pms")
    case None
    with assms(1) show ?thesis by (simp add: leaderStep_cases leaderIn_def)
  next
    case (Some m)
    with assms(1) obtain l where l: "leader m = Some l"
        and r: "r = AList.update l (lookupList result l @ [id']) (own_entries int_array_index result)"
      by (auto simp: leaderStep_cases split: option.splits)
    have "map_of r = (map_of result)(l \<mapsto> lookupList result l @ [id'])"
      by (simp only: r update_conv' map_of_own_entries [OF assms(2)])
    with Some l show ?thesis
      by (simp add: lookupList_def leaderIn_def)
  qed
  show "fst ` set r = fst ` set result \<union> {n. leaderIn pms id' = Some n}"
  proof (cases "find (\<lambda>p. partitionId p = id') pms")
    case None
    with assms(1) show ?thesis by (simp add: leaderStep_cases leaderIn_def)
  next
    case (Some m)
    with assms(1) obtain l where l: "leader m = Some l"
        and r: "r = AList.update l (lookupList result l @ [id']) (own_entries int_array_index result)"
      by (auto simp: leaderStep_cases split: option.splits)
    have "fst ` set r = {l} \<union> fst ` set result"
      by (simp only: r dom_update set_own_entries)
    with Some l show ?thesis
      by (auto simp: leaderIn_def)
  qed
qed

lemma reduce_leaderStep_ok:
  assumes "reduceE (leaderStep pms topic) ps acc = Inr r" and "distinct (map fst acc)"
  shows "distinct (map fst r)
     \<and> (\<forall>n. lookupList r n = lookupList acc n @ filter (\<lambda>i. leaderIn pms i = Some n) ps)
     \<and> fst ` set r = fst ` set acc \<union> {n. \<exists>i\<in>set ps. leaderIn pms i = Some n}"
  using assms
proof (induction ps arbitrary: acc)
  case Nil
  then show ?case by simp
next
  case (Cons i ps)
  from Cons.prems(1) obtain acc' where step: "leaderStep pms topic acc i = Inr acc'"
      and rest: "reduceE (leaderStep pms topic) ps acc' = Inr r"
    by (auto split: sum.splits)
  note s = leaderStep_ok [OF step Cons.prems(2)]
  from Cons.IH [OF rest s(1)] s(2) s(3) show ?case
    by auto
qed

lemma reduce_leaderStep_Inl_iff:
  "(\<exists>e. reduceE (leaderStep pms topic) ps acc = Inl e) \<longleftrightarrow>
     (\<exists>i\<in>set ps. \<exists>m. find (\<lambda>p. partitionId p = i) pms = Some m \<and> leader m = None)"
proof (induction ps arbitrary: acc)
  case Nil
  show ?case by simp
next
  case (Cons i ps)
  show ?case
  proof (cases "leaderStep pms topic acc i")
    case (Inl e)
    then have "\<exists>m. find (\<lambda>p. partitionId p = i) pms = Some m \<and> leader m = None"
      by (auto simp: leaderStep_cases split: option.splits)
    with Inl show ?thesis by auto
  next
    case (Inr acc')
    then have "\<not> (\<exists>m. find (\<lambda>p. partitionId p = i) pms = Some m \<and> leader m = None)"
      by (auto simp: leaderStep_cases split: option.splits)
    with Inr Cons.IH [of acc'] show ?thesis by auto
  qed
qed

lemma reduce_leaderStep_error:
  "reduceE (leaderStep pms topic) ps acc = Inl e \<Longrightarrow>
     \<exists>i\<in>set ps. e = KafkaJSInvalidPartitionMetadata topic i
        \<and> (\<exists>m. find (\<lambda>p. partitionId p = i) pms = Some m \<and> leader m = None)"
proof (induction ps arbitrary: acc)
  case Nil
  then show ?case by simp
next
  case (Cons i ps)
  show ?case
  proof (cases "leaderStep pms topic acc i")
    case (Inl e')
    with Cons.prems have "e' = e" by simp
    with Inl show ?thesis
      by (auto simp: leaderStep_cases split: option.splits)
  next
    case (Inr acc')
    with Cons.prems have "reduceE (leaderStep pms topic) ps acc' = Inl e" by simp
    from Cons.IH [OF this] show ?thesis by auto
  qed
qed

lemma reduce_leaderStep_omit:
  "reduceE (leaderStep pms topic) (filter (\<lambda>i. find (\<lambda>p. partitionId p = i) pms \<noteq> None) ps) acc
     = reduceE (leaderStep pms topic) ps acc"
proof (induction ps arbitrary: acc)
  case Nil
  show ?case by simp
next
  case (Cons i ps)
  show ?case
  proof (cases "find (\<lambda>p. partitionId p = i) pms")
    case None
    then have "leaderStep pms topic acc i = Inr acc" by (simp add: leaderStep_cases)
    with None Cons.IH [of acc] show ?thesis by simp
  next
    case (Some m)
    with Cons.IH show ?thesis by (simp split: sum.splits)
  qed
qed

lemma loaded_findTopicPartitionMetadata:
  assumes "metadata this = Some md" "topicMetadata md = Some tms"
  shows "\<exists>pms. findTopicPartitionMetadata this topic = Inr pms"
  using assms by (simp add: findTopicPartitionMetadata_def split: option.splits)

lemma findLeaderForPartitions_Inr:
  "findTopicPartitionMetadata this topic = Inr pms \<Longrightarrow>
     findLeaderForPartitions this topic ps = reduceE (leaderStep pms topic) ps []
     \<and> partitionMetadataOf this topic = (\<lambda>i. find (\<lambda>p. partitionId p = i) pms)
     \<and> leaderOf this topic = leaderIn pms"
  by (auto simp: findLeaderForPartitions_def findTopicPartitionMetadata_def partitionMetadataOf_def
        leaderOf_def leaderIn_def fun_eq_iff split: option.splits)

lemma map_of_lookupList:
  "map_of obj k = (if k \<in> fst ` set obj then Some (lookupList obj k) else None)"
proof (cases "map_of obj k")
  case None
  then show ?thesis by (simp add: map_of_eq_None_iff)
next
  case (Some l)
  then have "k \<in> fst ` set obj" by (metis map_of_eq_None_iff option.distinct(1))
  with Some show ?thesis by (simp add: lookupList_def)
qed

text \<open>
  C2. When the snapshot and its topic metadata are loaded and every requested partition
  id that has a metadata entry for the topic has a leader, \<open>findLeaderForPartitions\<close>
  returns an object with one property for each node id that leads a requested
  partition of the topic, whose value lists exactly the requested partition ids that
  the snapshot's entry for this topic gives that node as leader, in the order
  requested, and no other property. For the snapshot of scenario S1,
  \<open>findLeaderForPartitions("t", [0, 1, 2])\<close> is \<open>{1: [0, 2], 2: [1]}\<close>. For the snapshot
  in which partition 0 of topic \<open>u\<close> is led by 1, partition 0 of \<open>t\<close> by 2 and partition
  1 of \<open>t\<close> by 1, \<open>findLeaderForPartitions("t", [0, 1])\<close> is \<open>{1: [1], 2: [0]}\<close> and
  \<open>findLeaderForPartitions("u", [0, 1])\<close> is \<open>{1: [0]}\<close>.
\<close>

theorem findLeaderForPartitions_groups:
  "(\<forall>md tms. metadata this = Some md \<and> topicMetadata md = Some tms
       \<and> (\<forall>i\<in>set partitions. \<forall>m. partitionMetadataOf this topic i = Some m \<longrightarrow> leader m \<noteq> None)
     \<longrightarrow> (\<exists>r. findLeaderForPartitions this topic partitions = Inr r
            \<and> distinct (map fst r)
            \<and> (\<forall>n. map_of r n =
                  (if \<exists>i\<in>set partitions. leaderOf this topic i = Some n
                   then Some (filter (\<lambda>i. leaderOf this topic i = Some n) partitions)
                   else None))))
   \<and> findLeaderForPartitions scenario_cluster ''t'' [0, 1, 2] = Inr [(1, [0, 2]), (2, [1])]
   \<and> findLeaderForPartitions two_topic_cluster ''t'' [0, 1] = Inr [(2, [0]), (1, [1])]
   \<and> findLeaderForPartitions two_topic_cluster ''u'' [0, 1] = Inr [(1, [0])]"
proof -
  have general: "\<exists>r. findLeaderForPartitions this topic partitions = Inr r
            \<and> distinct (map fst r)
            \<and> (\<forall>n. map_of r n =
                  (if \<exists>i\<in>set partitions. leaderOf this topic i = Some n
                   then Some (filter (\<lambda>i. leaderOf this topic i = Some n) partitions)
                   else None))"
    if loaded: "metadata this = Some md" "topicMetadata md = Some tms"
      and leaders: "\<forall>i\<in>set partitions. \<forall>m. partitionMetadataOf this topic i = Some m \<longrightarrow> leader m \<noteq> None"
    for md tms
  proof -
    from loaded_findTopicPartitionMetadata [OF loaded]
    obtain pms where pms: "findTopicPartitionMetadata this topic = Inr pms" ..
    note eqs = findLeaderForPartitions_Inr [OF pms, of partitions]
    from leaders eqs
    have "\<not> (\<exists>i\<in>set partitions. \<exists>m. find (\<lambda>p. partitionId p = i) pms = Some m \<and> leader m = None)"
      by auto
    with reduce_leaderStep_Inl_iff [of pms topic partitions "[]"]
    obtain r where r: "reduceE (leaderStep pms topic) partitions [] = Inr r"
      by (cases "reduceE (leaderStep pms topic) partitions []") auto
    from reduce_leaderStep_ok [OF r]
    have d: "distinct (map fst r)"
      and l: "\<And>n. lookupList r n = filter (\<lambda>i. leaderIn pms i = Some n) partitions"
      and k: "fst ` set r = {n. \<exists>i\<in>set partitions. leaderIn pms i = Some n}"
      by (simp_all add: lookupList_def)
    have "\<forall>n. map_of r n =
                  (if \<exists>i\<in>set partitions. leaderIn pms i = Some n
                   then Some (filter (\<lambda>i. leaderIn pms i = Some n) partitions)
                   else None)"
      by (simp only: map_of_lookupList [of r] k l) simp
    with r d eqs show ?thesis by simp
  qed
  have example: "findLeaderForPartitions scenario_cluster ''t'' [0, 1, 2] = Inr [(1, [0, 2]), (2, [1])]"
    by code_simp
  have two: "findLeaderForPartitions two_topic_cluster ''t'' [0, 1] = Inr [(2, [0]), (1, [1])]"
      "findLeaderForPartitions two_topic_cluster ''u'' [0, 1] = Inr [(1, [0])]"
    by code_simp+
  from general example two show ?thesis by blast
qed

theorem findLeaderForPartitions_groups_witness:
  "metadata scenario_cluster = Some scenario_metadata
   \<and> topicMetadata scenario_metadata \<noteq> None
   \<and> leaderOf scenario_cluster ''t'' 0 = Some 1
   \<and> leaderOf scenario_cluster ''t'' 1 = Some 2
   \<and> leaderOf scenario_cluster ''t'' 2 = Some 1
   \<and> (\<exists>r. findLeaderForPartitions scenario_cluster ''t'' [0, 1, 2] = Inr r
          \<and> map_of r 1 = Some [0, 2] \<and> map_of r 2 = Some [1] \<and> map_of r 3 = None)
   \<and> leaderOf two_topic_cluster ''u'' 0 = Some 1
   \<and> leaderOf two_topic_cluster ''t'' 0 = Some 2
   \<and> leaderOf two_topic_cluster ''t'' 1 = Some 1
   \<and> (\<exists>r. findLeaderForPartitions two_topic_cluster ''t'' [0, 1] = Inr r
          \<and> map_of r 1 = Some [1] \<and> map_of r 2 = Some [0])"
proof -
  have a: "metadata scenario_cluster = Some scenario_metadata"
    by (simp add: scenario_cluster_def)
  obtain tms where b: "topicMetadata scenario_metadata = Some tms"
    by (simp add: scenario_metadata_def)
  have l: "leaderOf scenario_cluster ''t'' 0 = Some 1" "leaderOf scenario_cluster ''t'' 1 = Some 2"
      "leaderOf scenario_cluster ''t'' 2 = Some 1"
    by code_simp+
  have c: "\<forall>i\<in>set [0, 1, 2]. \<forall>m. partitionMetadataOf scenario_cluster ''t'' i = Some m
          \<longrightarrow> leader m \<noteq> None"
    using l by (auto simp: leaderOf_def)
  from findLeaderForPartitions_groups
         [where this = scenario_cluster and topic = "''t''" and partitions = "[0, 1, 2]"] a b c
  obtain r where r: "findLeaderForPartitions scenario_cluster ''t'' [0, 1, 2] = Inr r"
      "\<forall>n. map_of r n =
         (if \<exists>i\<in>set [0, 1, 2]. leaderOf scenario_cluster ''t'' i = Some n
          then Some (filter (\<lambda>i. leaderOf scenario_cluster ''t'' i = Some n) [0, 1, 2])
          else None)"
    by blast
  from r(2) l have s1: "map_of r 1 = Some [0, 2]" "map_of r 2 = Some [1]" "map_of r 3 = None"
    by simp_all
  obtain md2 tms2 where a2: "metadata two_topic_cluster = Some md2"
      and b2: "topicMetadata md2 = Some tms2"
    by (simp add: two_topic_cluster_def)
  have l2: "leaderOf two_topic_cluster ''u'' 0 = Some 1" "leaderOf two_topic_cluster ''t'' 0 = Some 2"
      "leaderOf two_topic_cluster ''t'' 1 = Some 1"
    by code_simp+
  have c2: "\<forall>i\<in>set [0, 1]. \<forall>m. partitionMetadataOf two_topic_cluster ''t'' i = Some m
          \<longrightarrow> leader m \<noteq> None"
    using l2 by (auto simp: leaderOf_def)
  from findLeaderForPartitions_groups
         [where this = two_topic_cluster and topic = "''t''" and partitions = "[0, 1]"] a2 b2 c2
  obtain r2 where r2: "findLeaderForPartitions two_topic_cluster ''t'' [0, 1] = Inr r2"
      "\<forall>n. map_of r2 n =
         (if \<exists>i\<in>set [0, 1]. leaderOf two_topic_cluster ''t'' i = Some n
          then Some (filter (\<lambda>i. leaderOf two_topic_cluster ''t'' i = Some n) [0, 1])
          else None)"
    by blast
  from r2(2) l2 have s2: "map_of r2 1 = Some [1]" "map_of r2 2 = Some [0]"
    by simp_all
  from r(1) s1 have e1: "\<exists>r. findLeaderForPartitions scenario_cluster ''t'' [0, 1, 2] = Inr r
          \<and> map_of r 1 = Some [0, 2] \<and> map_of r 2 = Some [1] \<and> map_of r 3 = None"
    by simp
  from r2(1) s2 have e2: "\<exists>r. findLeaderForPartitions two_topic_cluster ''t'' [0, 1] = Inr r
          \<and> map_of r 1 = Some [1] \<and> map_of r 2 = Some [0]"
    by simp
  from a b l e1 l2 e2 show ?thesis by simp
qed

text \<open>
  C3. For a loaded snapshot, \<open>findLeaderForPartitions\<close> raises exactly when some
  requested partition id has a metadata entry for the topic whose leader is null or
  undefined, and the error is then the invalid-partition-metadata error for one of the
  requested ids. Requested ids without a metadata entry are omitted without error:
  removing them from the request changes nothing, and every id in the result has a
  metadata entry.
\<close>

theorem findLeaderForPartitions_errors:
  "metadata this = Some md \<and> topicMetadata md = Some tms \<longrightarrow>
     ((\<exists>e. findLeaderForPartitions this topic ps = Inl e)
        \<longleftrightarrow> (\<exists>i\<in>set ps. \<exists>m. partitionMetadataOf this topic i = Some m \<and> leader m = None))
   \<and> (\<forall>e. findLeaderForPartitions this topic ps = Inl e
          \<longrightarrow> (\<exists>i\<in>set ps. e = KafkaJSInvalidPartitionMetadata topic i))
   \<and> findLeaderForPartitions this topic (filter (\<lambda>i. partitionMetadataOf this topic i \<noteq> None) ps)
       = findLeaderForPartitions this topic ps
   \<and> (\<forall>r n l. findLeaderForPartitions this topic ps = Inr r \<and> map_of r n = Some l
          \<longrightarrow> (\<forall>i\<in>set l. partitionMetadataOf this topic i \<noteq> None))"
proof
  assume "metadata this = Some md \<and> topicMetadata md = Some tms"
  then have loaded: "metadata this = Some md" "topicMetadata md = Some tms" by simp_all
  from loaded_findTopicPartitionMetadata [OF loaded]
  obtain pms where pms: "findTopicPartitionMetadata this topic = Inr pms" ..
  have eq1: "\<And>qs. findLeaderForPartitions this topic qs = reduceE (leaderStep pms topic) qs []"
    using findLeaderForPartitions_Inr [OF pms] by simp
  have eq2: "partitionMetadataOf this topic = (\<lambda>i. find (\<lambda>p. partitionId p = i) pms)"
    using findLeaderForPartitions_Inr [OF pms] by simp
  have a: "(\<exists>e. findLeaderForPartitions this topic ps = Inl e)
        \<longleftrightarrow> (\<exists>i\<in>set ps. \<exists>m. partitionMetadataOf this topic i = Some m \<and> leader m = None)"
    by (simp only: eq1 eq2 reduce_leaderStep_Inl_iff)
  have b: "\<forall>e. findLeaderForPartitions this topic ps = Inl e
          \<longrightarrow> (\<exists>i\<in>set ps. e = KafkaJSInvalidPartitionMetadata topic i)"
    using reduce_leaderStep_error [of pms topic ps "[]"] by (auto simp only: eq1)
  have c: "findLeaderForPartitions this topic (filter (\<lambda>i. partitionMetadataOf this topic i \<noteq> None) ps)
       = findLeaderForPartitions this topic ps"
    by (simp only: eq1 eq2 reduce_leaderStep_omit)
  have d: "\<forall>r n l. findLeaderForPartitions this topic ps = Inr r \<and> map_of r n = Some l
          \<longrightarrow> (\<forall>i\<in>set l. partitionMetadataOf this topic i \<noteq> None)"
  proof (intro allI impI ballI)
    fix r n l i
    assume h: "findLeaderForPartitions this topic ps = Inr r \<and> map_of r n = Some l" and i: "i \<in> set l"
    then have r: "reduceE (leaderStep pms topic) ps [] = Inr r" by (simp add: eq1)
    from reduce_leaderStep_ok [OF r]
    have "lookupList r n = filter (\<lambda>i. leaderIn pms i = Some n) ps"
      by (simp add: lookupList_def)
    with h have "l = filter (\<lambda>i. leaderIn pms i = Some n) ps"
      by (simp add: lookupList_def)
    with i have "leaderIn pms i = Some n" by simp
    then show "partitionMetadataOf this topic i \<noteq> None"
      by (auto simp: eq2 leaderIn_def split: option.splits)
  qed
  from a b c d
  show "((\<exists>e. findLeaderForPartitions this topic ps = Inl e)
        \<longleftrightarrow> (\<exists>i\<in>set ps. \<exists>m. partitionMetadataOf this topic i = Some m \<and> leader m = None))
   \<and> (\<forall>e. findLeaderForPartitions this topic ps = Inl e
          \<longrightarrow> (\<exists>i\<in>set ps. e = KafkaJSInvalidPartitionMetadata topic i))
   \<and> findLeaderForPartitions this topic (filter (\<lambda>i. partitionMetadataOf this topic i \<noteq> None) ps)
       = findLeaderForPartitions this topic ps
   \<and> (\<forall>r n l. findLeaderForPartitions this topic ps = Inr r \<and> map_of r n = Some l
          \<longrightarrow> (\<forall>i\<in>set l. partitionMetadataOf this topic i \<noteq> None))"
    by blast
qed

theorem findLeaderForPartitions_errors_witness:
  "metadata (scenario_cluster\<lparr>metadata := Some null_leader_metadata\<rparr>) = Some null_leader_metadata
   \<and> topicMetadata null_leader_metadata \<noteq> None
   \<and> partitionMetadataOf (scenario_cluster\<lparr>metadata := Some null_leader_metadata\<rparr>) ''t'' 0
       = Some \<lparr>partitionId = 0, leader = None\<rparr>
   \<and> (\<exists>e. findLeaderForPartitions (scenario_cluster\<lparr>metadata := Some null_leader_metadata\<rparr>)
            ''t'' [1, 0] = Inl e)
   \<and> findLeaderForPartitions (scenario_cluster\<lparr>metadata := Some null_leader_metadata\<rparr>)
        ''t'' [1, 0] = Inl (KafkaJSInvalidPartitionMetadata ''t'' 0)
   \<and> findLeaderForPartitions (scenario_cluster\<lparr>metadata := Some null_leader_metadata\<rparr>)
        ''t'' [1, 7] = Inr [(2, [1])]"
proof -
  have a: "metadata (scenario_cluster\<lparr>metadata := Some null_leader_metadata\<rparr>)
      = Some null_leader_metadata"
    by simp
  obtain tms where b: "topicMetadata null_leader_metadata = Some tms"
    by (simp add: null_leader_metadata_def)
  have c: "partitionMetadataOf (scenario_cluster\<lparr>metadata := Some null_leader_metadata\<rparr>) ''t'' 0
       = Some \<lparr>partitionId = 0, leader = None\<rparr>"
    by code_simp
  have d: "findLeaderForPartitions (scenario_cluster\<lparr>metadata := Some null_leader_metadata\<rparr>)
        ''t'' [1, 0] = Inl (KafkaJSInvalidPartitionMetadata ''t'' 0)"
    by code_simp
  have e: "findLeaderForPartitions (scenario_cluster\<lparr>metadata := Some null_leader_metadata\<rparr>)
        ''t'' [1, 7] = Inr [(2, [1])]"
    by code_simp
  from findLeaderForPartitions_errors
         [where this = "scenario_cluster\<lparr>metadata := Some null_leader_metadata\<rparr>"
            and md = null_leader_metadata and tms = tms and topic = "''t''" and ps = "[1, 0]"]
       a b c
  have "\<exists>e. findLeaderForPartitions (scenario_cluster\<lparr>metadata := Some null_leader_metadata\<rparr>)
            ''t'' [1, 0] = Inl e"
    by auto
  with a b c d e show ?thesis by simp
qed

subsection \<open>Merging the responses\<close>

lemma mergeTopics_Inr:
  "mergeTopics obj r = Inr obj' \<Longrightarrow>
     obj' = AList.update (rs_topic r) (lookupList obj (rs_topic r) @ rs_partitions r)
              (own_entries array_index obj)"
  by (auto simp: mergeTopics_def lookupList_def split: option.splits if_splits)

lemma mergeTopics_Inl_iff:
  "(\<exists>e. mergeTopics obj r = Inl e) \<longleftrightarrow>
     rs_topic r \<notin> fst ` set obj \<and> rs_topic r \<in> set object_prototype_names"
proof (cases "map_of obj (rs_topic r)")
  case None
  then have "rs_topic r \<notin> fst ` set obj" by (simp add: map_of_eq_None_iff)
  with None show ?thesis by (simp add: mergeTopics_def)
next
  case (Some ps)
  then have "rs_topic r \<in> fst ` set obj" by (metis map_of_eq_None_iff option.distinct(1))
  with Some show ?thesis by (simp add: mergeTopics_def)
qed

lemma mergeTopics_ok:
  assumes "distinct (map fst obj)" and "mergeTopics obj r = Inr obj'"
  shows "distinct (map fst obj')"
    and "lookupList obj' t = lookupList obj t @ (if rs_topic r = t then rs_partitions r else [])"
    and "fst ` set obj' = fst ` set obj \<union> {rs_topic r}"
proof -
  note form = mergeTopics_Inr [OF assms(2)]
  show "distinct (map fst obj')"
    using assms(1) by (simp add: form distinct_update distinct_own_entries)
  have "map_of obj' = (map_of obj)(rs_topic r \<mapsto> lookupList obj (rs_topic r) @ rs_partitions r)"
    by (simp only: form update_conv' map_of_own_entries [OF assms(1)])
  then show "lookupList obj' t = lookupList obj t @ (if rs_topic r = t then rs_partitions r else [])"
    by (simp add: lookupList_def)
  have "fst ` set obj' = {rs_topic r} \<union> fst ` set obj"
    by (simp only: form dom_update set_own_entries)
  then show "fst ` set obj' = fst ` set obj \<union> {rs_topic r}"
    by auto
qed

lemma reduce_mergeTopics_ok:
  assumes "distinct (map fst obj)" and "reduceE mergeTopics rs obj = Inr obj'"
  shows "distinct (map fst obj')
     \<and> (\<forall>t. lookupList obj' t = lookupList obj t @ partitionsOfTopic rs t)
     \<and> fst ` set obj' = fst ` set obj \<union> rs_topic ` set rs"
  using assms
proof (induction rs arbitrary: obj)
  case Nil
  then show ?case by (simp add: partitionsOfTopic_def)
next
  case (Cons r rs)
  from Cons.prems(2) obtain obj1 where step: "mergeTopics obj r = Inr obj1"
      and rest: "reduceE mergeTopics rs obj1 = Inr obj'"
    by (auto split: sum.splits)
  note m = mergeTopics_ok [OF Cons.prems(1) step]
  from Cons.IH [OF m(1) rest] m(2) m(3) show ?case
    by (auto simp: partitionsOfTopic_def)
qed

text \<open>
  The merge fails exactly when some response names a topic that \<open>Object.prototype\<close>
  defines a property for.
\<close>

lemma reduce_mergeTopics_Inl_iff:
  "(\<exists>e. reduceE mergeTopics rs obj = Inl e) \<longleftrightarrow>
     (\<exists>r\<in>set rs. rs_topic r \<notin> fst ` set obj \<and> rs_topic r \<in> set object_prototype_names)"
proof (induction rs arbitrary: obj)
  case Nil
  show ?case by simp
next
  case (Cons r rs)
  show ?case
  proof (cases "mergeTopics obj r")
    case (Inl e)
    with mergeTopics_Inl_iff [of obj r] show ?thesis by auto
  next
    case (Inr obj1)
    with mergeTopics_Inl_iff [of obj r]
    have ok: "\<not> (rs_topic r \<notin> fst ` set obj \<and> rs_topic r \<in> set object_prototype_names)"
      by auto
    have keys: "fst ` set obj1 = {rs_topic r} \<union> fst ` set obj"
      by (simp only: mergeTopics_Inr [OF Inr] dom_update set_own_entries)
    have same: "\<And>t. (t \<notin> fst ` set obj1 \<and> t \<in> set object_prototype_names)
        \<longleftrightarrow> (t \<notin> fst ` set obj \<and> t \<in> set object_prototype_names)"
      using ok keys by auto
    from Inr Cons.IH [of obj1] ok show ?thesis by (auto simp: same)
  qed
qed

lemma reduce_mergeTopics_error:
  "reduceE mergeTopics rs obj = Inl e \<Longrightarrow> e = TypeError"
proof (induction rs arbitrary: obj)
  case Nil
  then show ?case by simp
next
  case (Cons r rs)
  then show ?case
    by (cases "mergeTopics obj r") (auto simp: mergeTopics_def split: option.splits if_splits)
qed

lemma normalizeResponses_ok:
  assumes "normalizeResponses responses = Inr out"
  shows "distinct (map to_topic out)
   \<and> set (map to_topic out) = rs_topic ` set (concat responses)
   \<and> (\<forall>e\<in>set out. to_partitions e
          = map projectOffset (partitionsOfTopic (concat responses) (to_topic e)))"
proof -
  from assms obtain obj where obj: "reduceE mergeTopics (concat responses) [] = Inr obj"
      and n: "out = map (\<lambda>tp. \<lparr>to_topic = fst tp, to_partitions = map projectOffset (snd tp)\<rparr>)
                      (own_entries array_index obj)"
    by (auto simp: normalizeResponses_def flatten_def projectOffset_def [abs_def] split: sum.splits)
  from reduce_mergeTopics_ok [OF _ obj]
  have d: "distinct (map fst obj)"
    and l: "\<And>t. lookupList obj t = partitionsOfTopic (concat responses) t"
    and k: "fst ` set obj = rs_topic ` set (concat responses)"
    by (simp_all add: lookupList_def)
  have t: "map to_topic out = map fst (own_entries array_index obj)"
    by (simp add: n comp_def)
  have a: "distinct (map to_topic out)"
    by (simp only: t distinct_own_entries [OF d])
  have b: "set (map to_topic out) = rs_topic ` set (concat responses)"
    by (simp only: t set_map set_own_entries k)
  have c: "\<forall>e\<in>set out. to_partitions e
      = map projectOffset (partitionsOfTopic (concat responses) (to_topic e))"
  proof
    fix e
    assume "e \<in> set out"
    then obtain tp where tp: "tp \<in> set obj"
        and e: "e = \<lparr>to_topic = fst tp, to_partitions = map projectOffset (snd tp)\<rparr>"
      by (auto simp: n set_own_entries)
    from tp d have "map_of obj (fst tp) = Some (snd tp)" by simp
    then have "lookupList obj (fst tp) = snd tp" by (simp add: lookupList_def)
    with l [of "fst tp"] e
    show "to_partitions e = map projectOffset (partitionsOfTopic (concat responses) (to_topic e))"
      by simp
  qed
  from a b c show ?thesis by blast
qed

lemma normalizeResponses_Inl_iff:
  "(\<exists>e. normalizeResponses responses = Inl e) \<longleftrightarrow>
     (\<exists>r\<in>set (concat responses). rs_topic r \<in> set object_prototype_names)"
  using reduce_mergeTopics_Inl_iff [of "concat responses" "[]"]
  by (auto simp: normalizeResponses_def flatten_def split: sum.splits)

subsection \<open>The calls of the requests\<close>

lemma requestedNodes_simps [simp]:
  "requestedNodes [] = []"
  "requestedNodes (cs @ ds) = requestedNodes cs @ requestedNodes ds"
  "requestedNodes [FindBroker n] = []"
  "requestedNodes [RefreshMetadata ts] = []"
  "requestedNodes [ListOffsets n lvl req a] = [n]"
  by (simp_all add: requestedNodes_def)

lemma answered_simps [simp]:
  "answered [] = []"
  "answered (cs @ ds) = answered cs @ answered ds"
  "answered [FindBroker n] = []"
  "answered [RefreshMetadata ts] = []"
  "answered [ListOffsets n lvl req (Inr rs)] = [rs]"
  "answered [ListOffsets n lvl req (Inl e)] = []"
  by (simp_all add: answered_def)

lemma fulfilled_simps [simp]:
  "fulfilled [] = []"
  "fulfilled (Inr v # outcomes) = v # fulfilled outcomes"
  "fulfilled (Inl e # outcomes) = fulfilled outcomes"
  by (simp_all add: fulfilled_def)

lemma rejections_simps [simp]:
  "rejections [] outcomes = []"
  "rejections nodeIds [] = []"
  "rejections (n # nodeIds) (Inr v # outcomes) = rejections nodeIds outcomes"
  "rejections (n # nodeIds) (Inl e # outcomes) = (n, e) # rejections nodeIds outcomes"
  by (simp_all add: rejections_def)

lemma answered_FindBroker: "answered (map (\<lambda>np. FindBroker (fst np)) requests) = []"
  by (induction requests) (simp_all add: answered_def)

lemma requestedNodes_FindBroker: "requestedNodes (map (\<lambda>np. FindBroker (fst np)) requests) = []"
  by (induction requests) (simp_all add: requestedNodes_def)

lemma defaultOffset_values: "defaultOffset fb = (if fb then - 2 else - 1)"
  by (simp add: defaultOffset_def EARLIEST_OFFSET_def LATEST_OFFSET_def)

lemma findBrokerSettled_calls:
  assumes "findBrokerSettled env this found = (this', r)"
  shows "\<exists>new. calls this' = calls this @ new \<and> requestedNodes new = [] \<and> answered new = []
           \<and> isolationLevel this' = isolationLevel this"
proof (cases "\<exists>e. found = Inl e
    \<and> (e = KafkaJSBrokerNotFound \<or> e = KafkaJSLockTimeout \<or> e = ConnectionRefused)")
  case True
  with assms
  have "calls this' = calls this @ [RefreshMetadata (targetTopics this)]
      \<and> isolationLevel this' = isolationLevel this"
    by (auto simp: findBrokerSettled_def refreshMetadata_def Let_def split: option.splits)
  then show ?thesis
    by (intro exI [of _ "[RefreshMetadata (targetTopics this)]"]) simp
next
  case False
  with assms have "this' = this"
    by (cases found) (auto simp: findBrokerSettled_def)
  then show ?thesis by (intro exI [of _ "[]"]) simp
qed

lemma settleRequest_calls:
  assumes "settleRequest env tc this np = (this', r)"
  shows "\<exists>new. calls this' = calls this @ new
           \<and> answered new = fulfilled [r]
           \<and> isolationLevel this' = isolationLevel this
           \<and> (\<forall>n lvl req a. ListOffsets n lvl req a \<in> set new
                 \<longrightarrow> n = fst np \<and> lvl = isolationLevel this
                     \<and> listOffsetsTopics tc (snd np) = Inr req)
           \<and> ((\<exists>rs. r = Inr rs) \<longrightarrow> requestedNodes new = [fst np])"
proof -
  obtain this1 r1 where fb: "findBrokerSettled env this (pool_findBroker env (fst np)) = (this1, r1)"
    by (cases "findBrokerSettled env this (pool_findBroker env (fst np))")
  from findBrokerSettled_calls [OF fb] obtain new1 where new1: "calls this1 = calls this @ new1"
      "requestedNodes new1 = []" "answered new1 = []" "isolationLevel this1 = isolationLevel this"
    by blast
  have none1: "\<forall>n lvl req a. ListOffsets n lvl req a \<notin> set new1"
  proof (intro allI notI)
    fix n lvl req a
    assume "ListOffsets n lvl req a \<in> set new1"
    then obtain xs ys where "new1 = xs @ ListOffsets n lvl req a # ys"
      by (auto simp: in_set_conv_decomp)
    then have "requestedNodes new1 = requestedNodes xs @ [n] @ requestedNodes ys"
      by (simp add: requestedNodes_def)
    with new1(2) show False by simp
  qed
  show ?thesis
  proof (cases "\<exists>b req. r1 = Inr (Some b) \<and> listOffsetsTopics tc (snd np) = Inr req")
    case True
    then obtain b req where b: "r1 = Inr (Some b)" and req: "listOffsetsTopics tc (snd np) = Inr req"
      by blast
    from assms fb b req
    have c: "calls this' = (calls this @ new1) @ [ListOffsets (fst np) (isolationLevel this1) req r]"
      and lvl: "isolationLevel this' = isolationLevel this1"
      by (auto simp: settleRequest_def Let_def new1(1))
    show ?thesis
    proof (intro exI [of _ "new1 @ [ListOffsets (fst np) (isolationLevel this1) req r]"] conjI)
      show "calls this' = calls this @ new1 @ [ListOffsets (fst np) (isolationLevel this1) req r]"
        using c by simp
    next
      show "answered (new1 @ [ListOffsets (fst np) (isolationLevel this1) req r]) = fulfilled [r]"
        using new1 by (cases r) simp_all
    next
      show "isolationLevel this' = isolationLevel this"
        using lvl new1 by simp
    next
      show "\<forall>n lvl req' a.
          ListOffsets n lvl req' a \<in> set (new1 @ [ListOffsets (fst np) (isolationLevel this1) req r])
          \<longrightarrow> n = fst np \<and> lvl = isolationLevel this \<and> listOffsetsTopics tc (snd np) = Inr req'"
        using none1 req new1(4) by auto
    next
      show "(\<exists>rs. r = Inr rs)
          \<longrightarrow> requestedNodes (new1 @ [ListOffsets (fst np) (isolationLevel this1) req r]) = [fst np]"
        using new1(2) by simp
    qed
  next
    case False
    with assms fb have "this' = this1 \<and> (\<exists>e. r = Inl e)"
      by (auto simp: settleRequest_def Let_def split: sum.splits option.splits)
    with new1 none1 show ?thesis by (intro exI [of _ new1]) auto
  qed
qed

lemma settleRequests_calls:
  assumes "settleRequests env tc this requests = (this', outcomes)"
  shows "\<exists>new. calls this' = calls this @ new
           \<and> answered new = fulfilled outcomes
           \<and> length outcomes = length requests
           \<and> isolationLevel this' = isolationLevel this
           \<and> (\<forall>n lvl req a. ListOffsets n lvl req a \<in> set new
                 \<longrightarrow> lvl = isolationLevel this
                     \<and> (\<exists>np\<in>set requests. n = fst np \<and> listOffsetsTopics tc (snd np) = Inr req))
           \<and> (rejections (map fst requests) outcomes = []
                 \<longrightarrow> requestedNodes new = map fst requests)"
  using assms
proof (induction requests arbitrary: this this' outcomes)
  case Nil
  then show ?case by auto
next
  case (Cons np rest)
  obtain this1 r1 where ro: "settleRequest env tc this np = (this1, r1)"
    by (cases "settleRequest env tc this np")
  obtain this2 rs2 where ra: "settleRequests env tc this1 rest = (this2, rs2)"
    by (cases "settleRequests env tc this1 rest")
  from Cons.prems ro ra have res: "this' = this2" "outcomes = r1 # rs2" by simp_all
  from settleRequest_calls [OF ro] obtain new1 where new1: "calls this1 = calls this @ new1"
      "answered new1 = fulfilled [r1]" "isolationLevel this1 = isolationLevel this"
      "\<forall>n lvl req a. ListOffsets n lvl req a \<in> set new1
         \<longrightarrow> n = fst np \<and> lvl = isolationLevel this \<and> listOffsetsTopics tc (snd np) = Inr req"
      "(\<exists>rs. r1 = Inr rs) \<longrightarrow> requestedNodes new1 = [fst np]"
    by blast
  from Cons.IH [OF ra] obtain new2 where new2: "calls this2 = calls this1 @ new2"
      "answered new2 = fulfilled rs2" "length rs2 = length rest"
      "isolationLevel this2 = isolationLevel this1"
      "\<forall>n lvl req a. ListOffsets n lvl req a \<in> set new2
         \<longrightarrow> lvl = isolationLevel this1
             \<and> (\<exists>q\<in>set rest. n = fst q \<and> listOffsetsTopics tc (snd q) = Inr req)"
      "rejections (map fst rest) rs2 = [] \<longrightarrow> requestedNodes new2 = map fst rest"
    by blast
  show ?case
  proof (intro exI [of _ "new1 @ new2"] conjI allI impI)
    show "calls this' = calls this @ new1 @ new2"
      using res new1 new2 by simp
  next
    show "answered (new1 @ new2) = fulfilled outcomes"
      using res new1(2) new2(2) by (cases r1) simp_all
  next
    show "length outcomes = length (np # rest)"
      using res new2(3) by simp
  next
    show "isolationLevel this' = isolationLevel this"
      using res new1(3) new2(4) by simp
  next
    fix n lvl req a
    assume "ListOffsets n lvl req a \<in> set (new1 @ new2)"
    then have "ListOffsets n lvl req a \<in> set new1 \<or> ListOffsets n lvl req a \<in> set new2"
      by simp
    then show "lvl = isolationLevel this"
    proof
      assume "ListOffsets n lvl req a \<in> set new1"
      with new1(4) show ?thesis by blast
    next
      assume "ListOffsets n lvl req a \<in> set new2"
      with new2(5) new1(3) show ?thesis by auto
    qed
  next
    fix n lvl req a
    assume "ListOffsets n lvl req a \<in> set (new1 @ new2)"
    then have "ListOffsets n lvl req a \<in> set new1 \<or> ListOffsets n lvl req a \<in> set new2"
      by simp
    then show "\<exists>q\<in>set (np # rest). n = fst q \<and> listOffsetsTopics tc (snd q) = Inr req"
    proof
      assume "ListOffsets n lvl req a \<in> set new1"
      with new1(4) have "n = fst np \<and> listOffsetsTopics tc (snd np) = Inr req" by blast
      then show ?thesis by simp
    next
      assume "ListOffsets n lvl req a \<in> set new2"
      with new2(5) obtain q where "q \<in> set rest" "n = fst q" "listOffsetsTopics tc (snd q) = Inr req"
        by blast
      then show ?thesis by auto
    qed
  next
    assume "rejections (map fst (np # rest)) outcomes = []"
    with res have "(\<exists>rs. r1 = Inr rs) \<and> rejections (map fst rest) rs2 = []"
      by (cases r1) simp_all
    with new1(5) new2(6) show "requestedNodes (new1 @ new2) = map fst (np # rest)"
      by simp
  qed
qed

lemma promiseAll_Inr_iff:
  "(\<exists>responses. promiseAll env nodeIds outcomes = Inr responses)
     \<longleftrightarrow> rejections nodeIds outcomes = []"
  by (auto simp: promiseAll_def split: list.splits option.splits)

lemma promiseAll_Inr:
  "promiseAll env nodeIds outcomes = Inr responses \<Longrightarrow> responses = fulfilled outcomes"
  by (auto simp: promiseAll_def split: list.splits option.splits)

text \<open>
  What a run of \<open>fetchTopicsOffset\<close> adds to the calls: the broker lookups of all
  requests, then the calls of their continuations. A result is the normalised merge
  of the responses that came back.
\<close>

lemma fetchTopicsOffset_calls:
  assumes "fetchTopicsOffset env this topics = (this', res)"
  shows "\<exists>new. calls this' = calls this @ new
     \<and> (\<forall>out. res = Inr out \<longrightarrow> normalizeResponses (answered new) = Inr out)"
proof (cases "reduceE (indexTopic this) topics ([], \<lparr>tc_own = [], tc_proto = None\<rparr>)")
  case (Inl e)
  with assms have "this' = this" "res = Inl e" by (simp_all add: fetchTopicsOffset_def)
  then show ?thesis by simp
next
  case (Inr acc)
  obtain ppb tc where acc: "acc = (ppb, tc)" by (cases acc)
  define requests where "requests = own_entries int_array_index ppb"
  define started where
    "started = this\<lparr>calls := calls this @ map (\<lambda>np. FindBroker (fst np)) requests\<rparr>"
  obtain this1 outcomes where ra: "settleRequests env tc started requests = (this1, outcomes)"
    by (cases "settleRequests env tc started requests")
  from assms Inr acc ra
  have res: "this' = this1"
      "res = (case promiseAll env (map fst requests) outcomes of
                Inl e \<Rightarrow> Inl e
              | Inr responses \<Rightarrow> normalizeResponses responses)"
    by (auto simp: fetchTopicsOffset_def Let_def requests_def started_def split: sum.splits)
  from settleRequests_calls [OF ra] obtain new2 where new2: "calls this1 = calls started @ new2"
      "answered new2 = fulfilled outcomes"
    by blast
  show ?thesis
  proof (intro exI [of _ "map (\<lambda>np. FindBroker (fst np)) requests @ new2"] conjI allI impI)
    show "calls this' = calls this @ map (\<lambda>np. FindBroker (fst np)) requests @ new2"
      using res(1) new2(1) by (simp add: started_def)
  next
    fix out
    assume "res = Inr out"
    with res(2) obtain responses where p: "promiseAll env (map fst requests) outcomes = Inr responses"
        and n: "normalizeResponses responses = Inr out"
      by (cases "promiseAll env (map fst requests) outcomes") auto
    from promiseAll_Inr [OF p] new2(2) n
    show "normalizeResponses (answered (map (\<lambda>np. FindBroker (fst np)) requests @ new2)) = Inr out"
      by (simp add: answered_FindBroker)
  qed
qed

subsection \<open>Independence of the error codes\<close>

lemma own_entries_map_values:
  "own_entries idx (map (\<lambda>kv. (fst kv, h (snd kv))) props)
     = map (\<lambda>kv. (fst kv, h (snd kv))) (own_entries idx props)"
proof -
  define k where "k = (\<lambda>kv :: 'a \<times> 'b. case idx (fst kv) of Some n \<Rightarrow> n | None \<Rightarrow> 0)"
  define k' where "k' = (\<lambda>kv :: 'a \<times> 'c. case idx (fst kv) of Some n \<Rightarrow> n | None \<Rightarrow> 0)"
  define m where "m = (\<lambda>kv :: 'a \<times> 'c. (fst kv, h (snd kv)))"
  have ins: "\<And>x xs. insort_key k (m x) (map m xs) = map m (insort_key k' x xs)"
  proof -
    fix x xs
    show "insort_key k (m x) (map m xs) = map m (insort_key k' x xs)"
      by (induction xs) (simp_all add: k_def k'_def m_def)
  qed
  have srt: "\<And>xs. sort_key k (map m xs) = map m (sort_key k' xs)"
  proof -
    fix xs
    show "sort_key k (map m xs) = map m (sort_key k' xs)"
      by (induction xs) (simp_all add: ins)
  qed
  have "own_entries idx (map m props)
      = sort_key k (map m (filter (\<lambda>kv. idx (fst kv) \<noteq> None) props))
        @ map m (filter (\<lambda>kv. idx (fst kv) = None) props)"
    by (simp add: own_entries_def filter_map comp_def k_def m_def)
  also have "\<dots> = map m (own_entries idx props)"
    by (simp add: srt own_entries_def k'_def)
  finally show ?thesis by (simp only: m_def)
qed

lemma update_map_values:
  "AList.update k (h v) (map (\<lambda>kv. (fst kv, h (snd kv))) al)
     = map (\<lambda>kv. (fst kv, h (snd kv))) (AList.update k v al)"
  by (induction al) auto

lemma map_of_map_values:
  "map_of (map (\<lambda>kv. (fst kv, h (snd kv))) al) k = map_option h (map_of al k)"
  by (induction al) auto

lemma mergeTopics_overwrite:
  "mergeTopics (map (\<lambda>kv. (fst kv, map g (snd kv))) obj)
       (r\<lparr>rs_partitions := map g (rs_partitions r)\<rparr>)
     = (case mergeTopics obj r of
          Inl e \<Rightarrow> Inl e
        | Inr obj' \<Rightarrow> Inr (map (\<lambda>kv. (fst kv, map g (snd kv))) obj'))"
proof (cases "map_of obj (rs_topic r)")
  case None
  have "AList.update (rs_topic r) (map g (rs_partitions r))
          (own_entries array_index (map (\<lambda>kv. (fst kv, map g (snd kv))) obj))
      = map (\<lambda>kv. (fst kv, map g (snd kv)))
          (AList.update (rs_topic r) (rs_partitions r) (own_entries array_index obj))"
    by (simp only: own_entries_map_values update_map_values)
  with None show ?thesis
    by (simp add: mergeTopics_def map_of_map_values)
next
  case (Some ps)
  have "AList.update (rs_topic r) (map g (ps @ rs_partitions r))
          (own_entries array_index (map (\<lambda>kv. (fst kv, map g (snd kv))) obj))
      = map (\<lambda>kv. (fst kv, map g (snd kv)))
          (AList.update (rs_topic r) (ps @ rs_partitions r) (own_entries array_index obj))"
    by (simp only: own_entries_map_values update_map_values)
  with Some show ?thesis
    by (simp add: mergeTopics_def map_of_map_values)
qed

lemma reduce_mergeTopics_overwrite:
  "reduceE mergeTopics (map (\<lambda>r. r\<lparr>rs_partitions := map g (rs_partitions r)\<rparr>) rs)
       (map (\<lambda>kv. (fst kv, map g (snd kv))) obj)
     = (case reduceE mergeTopics rs obj of
          Inl e \<Rightarrow> Inl e
        | Inr obj' \<Rightarrow> Inr (map (\<lambda>kv. (fst kv, map g (snd kv))) obj'))"
proof (induction rs arbitrary: obj)
  case Nil
  show ?case by simp
next
  case (Cons r rs)
  show ?case
  proof (cases "mergeTopics obj r")
    case (Inl e)
    with mergeTopics_overwrite [of g obj r] show ?thesis by simp
  next
    case (Inr obj1)
    with mergeTopics_overwrite [of g obj r] Cons.IH [of obj1] show ?thesis by simp
  qed
qed

lemma normalizeResponses_overwrite:
  "normalizeResponses (map (map (overwriteErrorCodes f)) responses) = normalizeResponses responses"
proof -
  define g where "g = (\<lambda>p. p\<lparr>rp_errorCode := f p\<rparr>)"
  have ow: "overwriteErrorCodes f = (\<lambda>r. r\<lparr>rs_partitions := map g (rs_partitions r)\<rparr>)"
    by (rule ext) (simp add: overwriteErrorCodes_def g_def)
  have "reduceE mergeTopics (concat (map (map (overwriteErrorCodes f)) responses)) []
      = reduceE mergeTopics
          (map (\<lambda>r. r\<lparr>rs_partitions := map g (rs_partitions r)\<rparr>) (concat responses))
          (map (\<lambda>kv. (fst kv, map g (snd kv))) [])"
    by (simp add: ow map_concat)
  also have "\<dots> = (case reduceE mergeTopics (concat responses) [] of
          Inl e \<Rightarrow> Inl e
        | Inr obj' \<Rightarrow> Inr (map (\<lambda>kv. (fst kv, map g (snd kv))) obj'))"
    by (rule reduce_mergeTopics_overwrite)
  finally show ?thesis
    by (cases "reduceE mergeTopics (concat responses) []")
       (simp_all add: normalizeResponses_def flatten_def own_entries_map_values comp_def g_def)
qed

lemma findBrokerSettled_same:
  assumes "same_cluster a b"
  shows "same_cluster (fst (findBrokerSettled (withErrorCodes f env) a found))
           (fst (findBrokerSettled env b found))
     \<and> snd (findBrokerSettled (withErrorCodes f env) a found)
         = snd (findBrokerSettled env b found)"
proof (cases found)
  case (Inr bo)
  with assms show ?thesis
    by (simp add: findBrokerSettled_def)
next
  case (Inl e)
  with assms show ?thesis
    by (cases "fst (pool_refreshMetadata env (metadata b) (targetTopics b))")
       (simp_all add: findBrokerSettled_def refreshMetadata_def withErrorCodes_def Let_def
          same_cluster_def)
qed

lemma settleRequest_same:
  assumes "same_cluster a b"
  shows "same_cluster (fst (settleRequest (withErrorCodes f env) tc a np))
           (fst (settleRequest env tc b np))
     \<and> snd (settleRequest (withErrorCodes f env) tc a np)
         = overwriteAnswer f (snd (settleRequest env tc b np))"
proof -
  have pool: "pool_findBroker (withErrorCodes f env) = pool_findBroker env"
    by (simp add: withErrorCodes_def)
  obtain b1 r1 where fb: "findBrokerSettled env b (pool_findBroker env (fst np)) = (b1, r1)"
    by (cases "findBrokerSettled env b (pool_findBroker env (fst np))")
  obtain a1 r1' where fa:
      "findBrokerSettled (withErrorCodes f env) a (pool_findBroker env (fst np)) = (a1, r1')"
    by (cases "findBrokerSettled (withErrorCodes f env) a (pool_findBroker env (fst np))")
  from findBrokerSettled_same [OF assms, of f env "pool_findBroker env (fst np)"] fb fa
  have s1: "same_cluster a1 b1" and r1': "r1' = r1" by simp_all
  from s1 have lvl: "isolationLevel a1 = isolationLevel b1" by (simp add: same_cluster_def)
  show ?thesis
  proof (cases r1)
    case (Inl e)
    with fb fa s1 r1' show ?thesis
      by (simp add: settleRequest_def Let_def overwriteAnswer_def pool)
  next
    case (Inr bo)
    show ?thesis
    proof (cases bo)
      case None
      with Inr fb fa s1 r1' show ?thesis
        by (simp add: settleRequest_def Let_def overwriteAnswer_def pool)
    next
      case (Some br)
      show ?thesis
      proof (cases "listOffsetsTopics tc (snd np)")
        case (Inl e)
        with Some Inr fb fa s1 r1' show ?thesis
          by (simp add: settleRequest_def Let_def overwriteAnswer_def pool)
      next
        case req: (Inr req)
        with Some Inr fb fa s1 r1' lvl show ?thesis
          by (simp add: settleRequest_def Let_def overwriteAnswer_def withErrorCodes_def
                same_cluster_def)
      qed
    qed
  qed
qed

lemma settleRequests_same:
  assumes "same_cluster a b"
  shows "same_cluster (fst (settleRequests (withErrorCodes f env) tc a requests))
           (fst (settleRequests env tc b requests))
     \<and> snd (settleRequests (withErrorCodes f env) tc a requests)
         = map (overwriteAnswer f) (snd (settleRequests env tc b requests))"
  using assms
proof (induction requests arbitrary: a b)
  case Nil
  then show ?case by simp
next
  case (Cons np rest)
  obtain b1 r1 where rb: "settleRequest env tc b np = (b1, r1)"
    by (cases "settleRequest env tc b np")
  obtain a1 r1' where ra: "settleRequest (withErrorCodes f env) tc a np = (a1, r1')"
    by (cases "settleRequest (withErrorCodes f env) tc a np")
  from settleRequest_same [OF Cons.prems, of f env tc np] rb ra
  have s1: "same_cluster a1 b1" and r1': "r1' = overwriteAnswer f r1" by simp_all
  obtain b2 r2 where rb2: "settleRequests env tc b1 rest = (b2, r2)"
    by (cases "settleRequests env tc b1 rest")
  obtain a2 r2' where ra2: "settleRequests (withErrorCodes f env) tc a1 rest = (a2, r2')"
    by (cases "settleRequests (withErrorCodes f env) tc a1 rest")
  from Cons.IH [OF s1] rb2 ra2
  have "same_cluster a2 b2" "r2' = map (overwriteAnswer f) r2"
    by simp_all
  with rb ra r1' rb2 ra2 show ?case by simp
qed

lemma rejections_overwrite:
  "rejections nodeIds (map (overwriteAnswer f) outcomes) = rejections nodeIds outcomes"
proof (induction nodeIds arbitrary: outcomes)
  case Nil
  show ?case by simp
next
  case (Cons n nodeIds)
  show ?case
  proof (cases outcomes)
    case Nil
    then show ?thesis by simp
  next
    case (Cons r rest)
    with Cons.IH [of rest] show ?thesis
      by (cases r) (simp_all add: overwriteAnswer_def)
  qed
qed

lemma fulfilled_overwrite:
  "fulfilled (map (overwriteAnswer f) outcomes)
     = map (map (overwriteErrorCodes f)) (fulfilled outcomes)"
proof (induction outcomes)
  case Nil
  show ?case by simp
next
  case (Cons r rest)
  then show ?case by (cases r) (simp_all add: overwriteAnswer_def)
qed

lemma promiseAll_overwrite:
  "promiseAll (withErrorCodes f env) nodeIds (map (overwriteAnswer f) outcomes)
     = (case promiseAll env nodeIds outcomes of
          Inl e \<Rightarrow> Inl e
        | Inr responses \<Rightarrow> Inr (map (map (overwriteErrorCodes f)) responses))"
proof -
  have "settles_first (withErrorCodes f env) = settles_first env"
    by (simp add: withErrorCodes_def)
  then show ?thesis
    by (simp add: promiseAll_def rejections_overwrite fulfilled_overwrite
          split: list.splits option.splits)
qed

lemma fetchTopicsOffset_overwrite:
  "snd (fetchTopicsOffset (withErrorCodes f env) this topics)
     = snd (fetchTopicsOffset env this topics)"
proof (cases "reduceE (indexTopic this) topics ([], \<lparr>tc_own = [], tc_proto = None\<rparr>)")
  case (Inl e)
  then show ?thesis by (simp add: fetchTopicsOffset_def)
next
  case (Inr acc)
  obtain ppb tc where acc: "acc = (ppb, tc)" by (cases acc)
  define requests where "requests = own_entries int_array_index ppb"
  define started where
    "started = this\<lparr>calls := calls this @ map (\<lambda>np. FindBroker (fst np)) requests\<rparr>"
  obtain b1 r1 where rb: "settleRequests env tc started requests = (b1, r1)"
    by (cases "settleRequests env tc started requests")
  obtain a1 r1' where ra: "settleRequests (withErrorCodes f env) tc started requests = (a1, r1')"
    by (cases "settleRequests (withErrorCodes f env) tc started requests")
  have "same_cluster started started" by (simp add: same_cluster_def)
  from settleRequests_same [OF this, of f env tc requests] rb ra
  have r1': "r1' = map (overwriteAnswer f) r1"
    by simp
  have a: "snd (fetchTopicsOffset (withErrorCodes f env) this topics)
      = (case promiseAll (withErrorCodes f env) (map fst requests) r1' of
           Inl e \<Rightarrow> Inl e
         | Inr responses \<Rightarrow> normalizeResponses responses)"
    using Inr acc ra
    by (simp add: fetchTopicsOffset_def Let_def requests_def [symmetric] started_def [symmetric]
          split: sum.splits)
  have b: "snd (fetchTopicsOffset env this topics)
      = (case promiseAll env (map fst requests) r1 of
           Inl e \<Rightarrow> Inl e
         | Inr responses \<Rightarrow> normalizeResponses responses)"
    using Inr acc rb
    by (simp add: fetchTopicsOffset_def Let_def requests_def [symmetric] started_def [symmetric]
          split: sum.splits)
  show ?thesis
    unfolding a b r1' promiseAll_overwrite
    by (cases "promiseAll env (map fst requests) r1") (simp_all add: normalizeResponses_overwrite)
qed

subsection \<open>The index and the requests\<close>

lemma find_Some_mem: "find P xs = Some x \<Longrightarrow> x \<in> set xs \<and> P x"
  by (induction xs) (auto split: if_splits)

lemma find_snoc:
  "find P (xs @ [x]) = (case find P xs of Some y \<Rightarrow> Some y | None \<Rightarrow> if P x then Some x else None)"
  by (induction xs) simp_all

lemma wellFormedIndex_lookup:
  "wellFormedIndex ppb \<Longrightarrow> map_of ppb n = Some forNode \<Longrightarrow>
     distinct (map fst forNode) \<and> map_of forNode ''__proto__'' = None"
  unfolding wellFormedIndex_def
  by (auto dest!: map_of_SomeD simp: list_all_iff)

lemma storedPartitions_proto:
  "wellFormedIndex ppb \<Longrightarrow> storedPartitions ppb n ''__proto__'' = None"
  by (auto simp: storedPartitions_def split: option.splits dest: wellFormedIndex_lookup)

lemma assign_distinct: "distinct (map fst obj) \<Longrightarrow> distinct (map fst (assign obj k v))"
  by (simp add: assign_def distinct_update)

lemma map_of_assign:
  "map_of obj ''__proto__'' = None \<Longrightarrow>
     map_of (assign obj k v) = (if k = ''__proto__'' then map_of obj else (map_of obj)(k \<mapsto> v))"
  by (simp add: assign_def update_conv')

lemma indexLeader_wellFormed:
  assumes "wellFormedIndex ppb"
  shows "wellFormedIndex (indexLeader topic partitions ppb nl)"
proof -
  define forNode where "forNode = (case map_of ppb (fst nl) of Some obj \<Rightarrow> obj | None \<Rightarrow> [])"
  have f: "distinct (map fst forNode) \<and> map_of forNode ''__proto__'' = None"
    using wellFormedIndex_lookup [OF assms, of "fst nl"]
    by (cases "map_of ppb (fst nl)") (simp_all add: forNode_def)
  define forNode' where
    "forNode' = assign forNode topic (filter (\<lambda>p. pd_partition p \<in> set (snd nl)) partitions)"
  from f have "distinct (map fst forNode') \<and> map_of forNode' ''__proto__'' = None"
    by (simp add: forNode'_def assign_distinct map_of_assign)
  moreover have "indexLeader topic partitions ppb nl = AList.update (fst nl) forNode' ppb"
    by (simp add: indexLeader_def Let_def forNode_def forNode'_def)
  ultimately show ?thesis
    using assms unfolding wellFormedIndex_def
    by (simp add: distinct_update list_all_update)
qed

lemma indexLeader_stored:
  assumes "wellFormedIndex ppb"
  shows "storedPartitions (indexLeader topic partitions ppb nl) n t
     = (if n = fst nl \<and> t = topic \<and> topic \<noteq> ''__proto__''
        then Some (filter (\<lambda>p. pd_partition p \<in> set (snd nl)) partitions)
        else storedPartitions ppb n t)"
proof -
  define forNode where "forNode = (case map_of ppb (fst nl) of Some obj \<Rightarrow> obj | None \<Rightarrow> [])"
  have f: "map_of forNode ''__proto__'' = None"
    using wellFormedIndex_lookup [OF assms, of "fst nl"]
    by (cases "map_of ppb (fst nl)") (simp_all add: forNode_def)
  have s: "map_of forNode t = storedPartitions ppb (fst nl) t"
    by (simp add: forNode_def storedPartitions_def split: option.splits)
  define F where "F = filter (\<lambda>p. pd_partition p \<in> set (snd nl)) partitions"
  have i: "indexLeader topic partitions ppb nl = AList.update (fst nl) (assign forNode topic F) ppb"
    by (simp add: indexLeader_def Let_def forNode_def F_def)
  show ?thesis
    unfolding i F_def [symmetric]
    using s by (simp add: storedPartitions_def update_conv' map_of_assign [OF f])
qed

lemma foldl_indexLeader_wellFormed:
  "wellFormedIndex ppb \<Longrightarrow> wellFormedIndex (foldl (indexLeader topic partitions) ppb nls)"
  by (induction nls arbitrary: ppb) (simp_all add: indexLeader_wellFormed)

lemma foldl_indexLeader_stored:
  assumes "wellFormedIndex ppb" and "distinct (map fst nls)"
  shows "storedPartitions (foldl (indexLeader topic partitions) ppb nls) n t
     = (if n \<in> fst ` set nls \<and> t = topic \<and> topic \<noteq> ''__proto__''
        then Some (filter (\<lambda>p. pd_partition p \<in> set (lookupList nls n)) partitions)
        else storedPartitions ppb n t)"
  using assms
proof (induction nls arbitrary: ppb)
  case Nil
  show ?case by simp
next
  case (Cons nl rest)
  note w1 = indexLeader_wellFormed [OF Cons.prems(1), of topic partitions nl]
  from Cons.prems(2) have d: "distinct (map fst rest)" and fresh: "fst nl \<notin> fst ` set rest"
    by simp_all
  have l: "lookupList (nl # rest) n = (if n = fst nl then snd nl else lookupList rest n)"
    by (cases nl) (simp add: lookupList_def)
  show ?case
    using Cons.IH [OF w1 d] fresh
    by (auto simp: indexLeader_stored [OF Cons.prems(1)] l)
qed

lemma indexLeader_keys:
  "fst ` set (indexLeader topic partitions ppb nl) = fst ` set ppb \<union> {fst nl}"
  by (auto simp: indexLeader_def Let_def dom_update)

lemma foldl_indexLeader_keys:
  "fst ` set (foldl (indexLeader topic partitions) ppb nls) = fst ` set ppb \<union> fst ` set nls"
  by (induction nls arbitrary: ppb) (auto simp: indexLeader_keys)

lemma findLeaderForPartitions_result:
  assumes "findLeaderForPartitions this topic ps = Inr r"
  shows "distinct (map fst r)"
    and "fst ` set r = {n. \<exists>i\<in>set ps. leaderOf this topic i = Some n}"
    and "lookupList r n = filter (\<lambda>i. leaderOf this topic i = Some n) ps"
proof -
  from assms obtain pms where pms: "findTopicPartitionMetadata this topic = Inr pms"
    by (auto simp: findLeaderForPartitions_def split: sum.splits)
  note eqs = findLeaderForPartitions_Inr [OF pms, of ps]
  from assms eqs have r: "reduceE (leaderStep pms topic) ps [] = Inr r" by simp
  from reduce_leaderStep_ok [OF r] eqs
  show "distinct (map fst r)" and "fst ` set r = {n. \<exists>i\<in>set ps. leaderOf this topic i = Some n}"
    and "lookupList r n = filter (\<lambda>i. leaderOf this topic i = Some n) ps"
    by (simp_all add: lookupList_def)
qed

lemma indexTopic_ok:
  assumes "indexTopic this acc td = Inr acc'" and "wellFormedIndex (fst acc)"
  shows "wellFormedIndex (fst acc')"
    and "storedPartitions (fst acc') n t
       = (if t = td_topic td \<and> t \<noteq> ''__proto__''
             \<and> filter (ledBy this t n) (td_partitions td) \<noteq> []
          then Some (filter (ledBy this t n) (td_partitions td))
          else storedPartitions (fst acc) n t)"
    and "fst ` set (fst acc') = fst ` set (fst acc)
           \<union> {n. \<exists>p\<in>set (td_partitions td). ledBy this (td_topic td) n p}"
    and "snd acc' = setTopicConfiguration (snd acc) (td_topic td) (td_fromBeginning td)"
proof -
  from assms(1) obtain ppl where
      ppl: "findLeaderForPartitions this (td_topic td) (map pd_partition (td_partitions td)) = Inr ppl"
      and acc': "acc' = (foldl (indexLeader (td_topic td) (td_partitions td)) (fst acc)
                          (own_entries int_array_index ppl),
                        setTopicConfiguration (snd acc) (td_topic td) (td_fromBeginning td))"
    by (auto simp: indexTopic_def Let_def split: sum.splits)
  note r = findLeaderForPartitions_result [OF ppl]
  define nls where "nls = own_entries int_array_index ppl"
  have d: "distinct (map fst nls)"
    by (simp add: nls_def distinct_own_entries r(1))
  have k: "fst ` set nls = {n. \<exists>p\<in>set (td_partitions td). ledBy this (td_topic td) n p}"
    by (simp add: nls_def set_own_entries r(2) ledBy_def)
  have l: "\<And>m. lookupList nls m
      = filter (\<lambda>i. leaderOf this (td_topic td) i = Some m) (map pd_partition (td_partitions td))"
    by (simp add: nls_def lookupList_def map_of_own_entries [OF r(1)] r(3) [unfolded lookupList_def])
  have f: "\<And>m. filter (\<lambda>p. pd_partition p \<in> set (lookupList nls m)) (td_partitions td)
      = filter (ledBy this (td_topic td) m) (td_partitions td)"
    by (rule filter_cong) (auto simp: l ledBy_def)
  have e: "\<And>m. (m \<in> fst ` set nls) \<longleftrightarrow> filter (ledBy this (td_topic td) m) (td_partitions td) \<noteq> []"
    by (auto simp: k filter_empty_conv)
  show "wellFormedIndex (fst acc')"
    by (simp add: acc' foldl_indexLeader_wellFormed assms(2))
  show "storedPartitions (fst acc') n t
       = (if t = td_topic td \<and> t \<noteq> ''__proto__''
             \<and> filter (ledBy this t n) (td_partitions td) \<noteq> []
          then Some (filter (ledBy this t n) (td_partitions td))
          else storedPartitions (fst acc) n t)"
    using foldl_indexLeader_stored [OF assms(2) d, of "td_topic td" "td_partitions td" n t]
    by (auto simp: acc' nls_def [symmetric] f e)
  show "fst ` set (fst acc') = fst ` set (fst acc)
           \<union> {n. \<exists>p\<in>set (td_partitions td). ledBy this (td_topic td) n p}"
    by (simp add: acc' nls_def [symmetric] foldl_indexLeader_keys k)
  show "snd acc' = setTopicConfiguration (snd acc) (td_topic td) (td_fromBeginning td)"
    by (simp add: acc')
qed

lemma requestedPartitions_Cons:
  "requestedPartitions this (td # topics) n t
     = (case requestedPartitions this topics n t of
          Some ps \<Rightarrow> Some ps
        | None \<Rightarrow>
            if t = td_topic td \<and> t \<noteq> ''__proto__''
               \<and> filter (ledBy this t n) (td_partitions td) \<noteq> []
            then Some (filter (ledBy this t n) (td_partitions td)) else None)"
  by (auto simp: requestedPartitions_def find_snoc split: option.splits)

lemma lastFromBeginning_Cons:
  "lastFromBeginning (td # topics) t
     = (case lastFromBeginning topics t of
          Some fb \<Rightarrow> Some fb
        | None \<Rightarrow> if t = td_topic td then Some (td_fromBeginning td) else None)"
  by (auto simp: lastFromBeginning_def find_snoc split: option.splits)

lemma setTopicConfiguration_own:
  "t \<noteq> ''__proto__'' \<Longrightarrow>
     map_of (tc_own (setTopicConfiguration tc topic fb)) t
       = (if t = topic then Some fb else map_of (tc_own tc) t)"
  by (simp add: setTopicConfiguration_def update_conv')

lemma reduce_indexTopic_ok:
  assumes "reduceE (indexTopic this) topics acc = Inr acc'" and "wellFormedIndex (fst acc)"
  shows "wellFormedIndex (fst acc')
     \<and> (\<forall>n t. storedPartitions (fst acc') n t
           = (case requestedPartitions this topics n t of
                Some ps \<Rightarrow> Some ps
              | None \<Rightarrow> storedPartitions (fst acc) n t))
     \<and> fst ` set (fst acc') = fst ` set (fst acc)
           \<union> {n. \<exists>td\<in>set topics. \<exists>p\<in>set (td_partitions td). ledBy this (td_topic td) n p}
     \<and> (\<forall>t. t \<noteq> ''__proto__'' \<longrightarrow>
           map_of (tc_own (snd acc')) t
             = (case lastFromBeginning topics t of
                  Some fb \<Rightarrow> Some fb
                | None \<Rightarrow> map_of (tc_own (snd acc)) t))"
  using assms
proof (induction topics arbitrary: acc)
  case Nil
  then show ?case by (simp add: requestedPartitions_def lastFromBeginning_def)
next
  case (Cons td topics)
  from Cons.prems(1) obtain acc1 where step: "indexTopic this acc td = Inr acc1"
      and rest: "reduceE (indexTopic this) topics acc1 = Inr acc'"
    by (auto split: sum.splits)
  note s = indexTopic_ok [OF step Cons.prems(2)]
  note ih = Cons.IH [OF rest s(1)]
  have a: "wellFormedIndex (fst acc')" using ih by blast
  have b: "\<forall>n t. storedPartitions (fst acc') n t
           = (case requestedPartitions this (td # topics) n t of
                Some ps \<Rightarrow> Some ps
              | None \<Rightarrow> storedPartitions (fst acc) n t)"
  proof (intro allI)
    fix n t
    from ih have "storedPartitions (fst acc') n t
           = (case requestedPartitions this topics n t of
                Some ps \<Rightarrow> Some ps
              | None \<Rightarrow> storedPartitions (fst acc1) n t)"
      by blast
    then show "storedPartitions (fst acc') n t
           = (case requestedPartitions this (td # topics) n t of
                Some ps \<Rightarrow> Some ps
              | None \<Rightarrow> storedPartitions (fst acc) n t)"
      by (cases "requestedPartitions this topics n t")
         (auto simp: s(2) [of n t] requestedPartitions_Cons [of this td topics n t])
  qed
  have c: "fst ` set (fst acc') = fst ` set (fst acc)
           \<union> {n. \<exists>td\<in>set (td # topics). \<exists>p\<in>set (td_partitions td). ledBy this (td_topic td) n p}"
    using ih s(3) by auto
  have d: "\<forall>t. t \<noteq> ''__proto__'' \<longrightarrow>
           map_of (tc_own (snd acc')) t
             = (case lastFromBeginning (td # topics) t of
                  Some fb \<Rightarrow> Some fb
                | None \<Rightarrow> map_of (tc_own (snd acc)) t)"
  proof (intro allI impI)
    fix t :: string
    assume t: "t \<noteq> ''__proto__''"
    with ih have "map_of (tc_own (snd acc')) t
             = (case lastFromBeginning topics t of
                  Some fb \<Rightarrow> Some fb
                | None \<Rightarrow> map_of (tc_own (snd acc1)) t)"
      by blast
    moreover have "map_of (tc_own (snd acc1)) t
        = (if t = td_topic td then Some (td_fromBeginning td) else map_of (tc_own (snd acc)) t)"
      by (simp only: s(4) setTopicConfiguration_own [OF t])
    ultimately show "map_of (tc_own (snd acc')) t
             = (case lastFromBeginning (td # topics) t of
                  Some fb \<Rightarrow> Some fb
                | None \<Rightarrow> map_of (tc_own (snd acc)) t)"
      by (cases "lastFromBeginning topics t") (auto simp: lastFromBeginning_Cons [of td topics t])
  qed
  from a b c d show ?case by blast
qed


lemma mapE_map:
  "(\<And>x. x \<in> set xs \<Longrightarrow> f x = Inr (g x)) \<Longrightarrow> mapE f xs = Inr (map g xs)"
  by (induction xs) simp_all

lemma map_of_map_keyed:
  "map_of (map (\<lambda>kv. (fst kv, h (fst kv) (snd kv))) al) k = map_option (h k) (map_of al k)"
  by (induction al) auto

lemma listOffsetsTopics_configured:
  assumes "\<And>tp. tp \<in> set forNode \<Longrightarrow> configuredFromBeginning tc (fst tp) = Inr (fb (fst tp))"
  shows "listOffsetsTopics tc forNode
     = Inr (map (\<lambda>tp. \<lparr>tr_topic = fst tp,
                       tr_partitions =
                         map (\<lambda>p. \<lparr>pr_partition = pd_partition p,
                                    pr_timestamp = defaultOffset (fb (fst tp))\<rparr>) (snd tp)\<rparr>)
              (own_entries array_index forNode))"
  unfolding listOffsetsTopics_def
proof (rule mapE_map)
  fix tp
  assume "tp \<in> set (own_entries array_index forNode)"
  then have "configuredFromBeginning tc (fst tp) = Inr (fb (fst tp))"
    using assms by (simp add: set_own_entries)
  then have "mapE (addDefaultOffset tc (fst tp)) (snd tp)
      = Inr (map (\<lambda>p. \<lparr>pr_partition = pd_partition p,
                         pr_timestamp = defaultOffset (fb (fst tp))\<rparr>) (snd tp))"
    by (intro mapE_map) (simp add: addDefaultOffset_def)
  then show "(case mapE (addDefaultOffset tc (fst tp)) (snd tp) of
                Inl e \<Rightarrow> Inl e
              | Inr ps \<Rightarrow> Inr \<lparr>tr_topic = fst tp, tr_partitions = ps\<rparr>)
      = Inr \<lparr>tr_topic = fst tp,
             tr_partitions = map (\<lambda>p. \<lparr>pr_partition = pd_partition p,
                                       pr_timestamp = defaultOffset (fb (fst tp))\<rparr>) (snd tp)\<rparr>"
    by simp
qed

lemma requestedPartitions_named:
  assumes "requestedPartitions this topics n t = Some ps"
  shows "t \<noteq> ''__proto__'' \<and> (\<exists>fb. lastFromBeginning topics t = Some fb)"
proof -
  from assms have t: "t \<noteq> ''__proto__''"
    by (auto simp: requestedPartitions_def split: if_splits)
  with assms obtain td where "find (\<lambda>td. td_topic td = t
      \<and> filter (ledBy this t n) (td_partitions td) \<noteq> []) (rev topics) = Some td"
    by (auto simp: requestedPartitions_def)
  then have "td \<in> set (rev topics) \<and> td_topic td = t"
    by (auto dest: find_Some_mem)
  then have "find (\<lambda>td. td_topic td = t) (rev topics) \<noteq> None"
    by (auto simp: find_None_iff)
  with t show ?thesis by (auto simp: lastFromBeginning_def)
qed

text \<open>
  The request that the index holds for a node: one entry for each topic with a
  partition led by the node, carrying the partitions of the last descriptor of that
  topic that has such a partition, with the timestamp of the last descriptor of the
  topic.
\<close>

lemma index_request:
  assumes "reduceE (indexTopic this) topics ([], \<lparr>tc_own = [], tc_proto = None\<rparr>) = Inr (ppb, tc)"
    and "(n, forNode) \<in> set (own_entries int_array_index ppb)"
  shows "\<exists>req. listOffsetsTopics tc forNode = Inr req
     \<and> distinct (map tr_topic req)
     \<and> (\<forall>t. map_of (map (\<lambda>r. (tr_topic r, tr_partitions r)) req) t = requestFor this topics n t)"
proof -
  have w0: "wellFormedIndex (fst ([] :: (int \<times> (string \<times> PartitionData list) list) list,
                                 \<lparr>tc_own = [], tc_proto = None\<rparr>))"
    by (simp add: wellFormedIndex_def)
  from reduce_indexTopic_ok [OF assms(1) w0]
  have w: "wellFormedIndex ppb"
    and st: "\<And>m t. storedPartitions ppb m t = requestedPartitions this topics m t"
    and cf: "\<And>t. t \<noteq> ''__proto__'' \<Longrightarrow> map_of (tc_own tc) t = lastFromBeginning topics t"
    by (simp_all add: storedPartitions_def split: option.splits)
  from w have d: "distinct (map fst ppb)" by (simp add: wellFormedIndex_def)
  from assms(2) have "(n, forNode) \<in> set ppb" by (simp add: set_own_entries)
  with d have m: "map_of ppb n = Some forNode" by simp
  from wellFormedIndex_lookup [OF w m] have df: "distinct (map fst forNode)" by simp
  from m have sf: "\<And>t. map_of forNode t = requestedPartitions this topics n t"
    using st [of n] by (simp add: storedPartitions_def)
  define fb where "fb = (\<lambda>t. lastFromBeginning topics t = Some True)"
  have conf: "\<And>tp. tp \<in> set forNode \<Longrightarrow> configuredFromBeginning tc (fst tp) = Inr (fb (fst tp))"
  proof -
    fix tp
    assume "tp \<in> set forNode"
    with df have "map_of forNode (fst tp) = Some (snd tp)" by simp
    then have "requestedPartitions this topics n (fst tp) = Some (snd tp)" by (simp add: sf)
    from requestedPartitions_named [OF this]
    obtain b where t: "fst tp \<noteq> ''__proto__''" and b: "lastFromBeginning topics (fst tp) = Some b"
      by blast
    from cf [OF t] b have "map_of (tc_own tc) (fst tp) = Some b" by simp
    with b show "configuredFromBeginning tc (fst tp) = Inr (fb (fst tp))"
      by (simp add: configuredFromBeginning_def fb_def)
  qed
  define stamp where "stamp = (\<lambda>t. map (\<lambda>p :: PartitionData. \<lparr>pr_partition = pd_partition p,
                                          pr_timestamp = defaultOffset (fb t)\<rparr>))"
  define req where "req = map (\<lambda>tp. \<lparr>tr_topic = fst tp, tr_partitions = stamp (fst tp) (snd tp)\<rparr>)
                            (own_entries array_index forNode)"
  from listOffsetsTopics_configured [of forNode tc fb, OF conf]
  have r: "listOffsetsTopics tc forNode = Inr req"
    by (simp add: req_def stamp_def)
  have t: "map tr_topic req = map fst (own_entries array_index forNode)"
    by (simp add: req_def comp_def)
  have dr: "distinct (map tr_topic req)"
    by (simp only: t distinct_own_entries [OF df])
  have p: "map (\<lambda>r. (tr_topic r, tr_partitions r)) req
      = map (\<lambda>kv. (fst kv, stamp (fst kv) (snd kv))) (own_entries array_index forNode)"
    by (simp add: req_def comp_def)
  have "\<And>t. map_of (map (\<lambda>r. (tr_topic r, tr_partitions r)) req) t
      = map_option (stamp t) (map_of forNode t)"
    by (simp only: p map_of_map_keyed map_of_own_entries [OF df])
  then have c: "\<forall>t. map_of (map (\<lambda>r. (tr_topic r, tr_partitions r)) req) t
      = requestFor this topics n t"
    by (simp add: sf requestFor_def stamp_def fb_def defaultOffset_values)
  from r dr c show ?thesis by blast
qed

lemma index_nodes:
  assumes "reduceE (indexTopic this) topics ([], \<lparr>tc_own = [], tc_proto = None\<rparr>) = Inr (ppb, tc)"
  shows "distinct (map fst (own_entries int_array_index ppb))"
    and "set (map fst (own_entries int_array_index ppb)) = leaders this topics"
proof -
  have w0: "wellFormedIndex (fst ([] :: (int \<times> (string \<times> PartitionData list) list) list,
                                 \<lparr>tc_own = [], tc_proto = None\<rparr>))"
    by (simp add: wellFormedIndex_def)
  from reduce_indexTopic_ok [OF assms w0]
  have w: "wellFormedIndex ppb" and k: "fst ` set ppb = leaders this topics"
    by (simp_all add: leaders_def)
  from w show "distinct (map fst (own_entries int_array_index ppb))"
    by (simp add: wellFormedIndex_def distinct_own_entries)
  from k show "set (map fst (own_entries int_array_index ppb)) = leaders this topics"
    by (simp add: set_own_entries)
qed

text \<open>
  What \<open>fetchTopicsOffset\<close> asks of the brokers, for every argument and whatever the
  outcome: each \<open>listOffsets\<close> request that is sent goes to a node that leads a
  requested partition, carries the isolation level of the cluster, names each topic
  once, and holds for a topic the partitions of the last descriptor of that topic with
  a partition led by the node, each with timestamp -2 when the last descriptor of the
  topic has \<open>fromBeginning\<close> true and -1 otherwise. When the operation returns, one
  request was sent to each such node, and the result is the merge of the responses.
\<close>

lemma fetchTopicsOffset_requests:
  assumes "fetchTopicsOffset env this topics = (this', res)"
  shows "\<exists>new. calls this' = calls this @ new
     \<and> (\<forall>n lvl req a. ListOffsets n lvl req a \<in> set new \<longrightarrow>
          n \<in> leaders this topics \<and> lvl = isolationLevel this
        \<and> distinct (map tr_topic req)
        \<and> (\<forall>t. map_of (map (\<lambda>r. (tr_topic r, tr_partitions r)) req) t
                 = requestFor this topics n t))
     \<and> (\<forall>out. res = Inr out \<longrightarrow>
          distinct (requestedNodes new)
        \<and> set (requestedNodes new) = leaders this topics
        \<and> normalizeResponses (answered new) = Inr out)"
proof (cases "reduceE (indexTopic this) topics ([], \<lparr>tc_own = [], tc_proto = None\<rparr>)")
  case (Inl e)
  with assms have "this' = this" "res = Inl e" by (simp_all add: fetchTopicsOffset_def)
  then show ?thesis by (intro exI [of _ "[]"]) simp
next
  case (Inr acc)
  obtain ppb tc where acc: "acc = (ppb, tc)" by (cases acc)
  with Inr have idx: "reduceE (indexTopic this) topics ([], \<lparr>tc_own = [], tc_proto = None\<rparr>)
      = Inr (ppb, tc)"
    by simp
  define requests where "requests = own_entries int_array_index ppb"
  define started where
    "started = this\<lparr>calls := calls this @ map (\<lambda>np. FindBroker (fst np)) requests\<rparr>"
  obtain this1 outcomes where ra: "settleRequests env tc started requests = (this1, outcomes)"
    by (cases "settleRequests env tc started requests")
  from assms Inr acc ra
  have res: "this' = this1"
      "res = (case promiseAll env (map fst requests) outcomes of
                Inl e \<Rightarrow> Inl e
              | Inr responses \<Rightarrow> normalizeResponses responses)"
    by (auto simp: fetchTopicsOffset_def Let_def requests_def started_def split: sum.splits)
  from settleRequests_calls [OF ra] obtain new2 where new2: "calls this1 = calls started @ new2"
      "answered new2 = fulfilled outcomes"
      "\<forall>n lvl req a. ListOffsets n lvl req a \<in> set new2
         \<longrightarrow> lvl = isolationLevel started
             \<and> (\<exists>np\<in>set requests. n = fst np \<and> listOffsetsTopics tc (snd np) = Inr req)"
      "rejections (map fst requests) outcomes = [] \<longrightarrow> requestedNodes new2 = map fst requests"
    by blast
  note nodes = index_nodes [OF idx, folded requests_def]
  let ?new = "map (\<lambda>np. FindBroker (fst np)) requests @ new2"
  have a: "calls this' = calls this @ ?new"
    using res(1) new2(1) by (simp add: started_def)
  have b: "\<forall>n lvl req a. ListOffsets n lvl req a \<in> set ?new \<longrightarrow>
          n \<in> leaders this topics \<and> lvl = isolationLevel this
        \<and> distinct (map tr_topic req)
        \<and> (\<forall>t. map_of (map (\<lambda>r. (tr_topic r, tr_partitions r)) req) t
                 = requestFor this topics n t)"
  proof (intro allI impI)
    fix n lvl req a
    assume "ListOffsets n lvl req a \<in> set ?new"
    then have "ListOffsets n lvl req a \<in> set new2" by auto
    with new2(3) obtain np where lvl: "lvl = isolationLevel started"
        and np: "np \<in> set requests" "n = fst np" "listOffsetsTopics tc (snd np) = Inr req"
      by blast
    from np(1,2) have mem: "(n, snd np) \<in> set (own_entries int_array_index ppb)"
      by (simp add: requests_def)
    from index_request [OF idx mem] np(3)
    have "distinct (map tr_topic req)
        \<and> (\<forall>t. map_of (map (\<lambda>r. (tr_topic r, tr_partitions r)) req) t
                 = requestFor this topics n t)"
      by simp
    moreover from np(1,2) nodes(2) have "n \<in> leaders this topics" by auto
    moreover from lvl have "lvl = isolationLevel this" by (simp add: started_def)
    ultimately show "n \<in> leaders this topics \<and> lvl = isolationLevel this
        \<and> distinct (map tr_topic req)
        \<and> (\<forall>t. map_of (map (\<lambda>r. (tr_topic r, tr_partitions r)) req) t
                 = requestFor this topics n t)"
      by blast
  qed
  have c: "\<forall>out. res = Inr out \<longrightarrow>
          distinct (requestedNodes ?new)
        \<and> set (requestedNodes ?new) = leaders this topics
        \<and> normalizeResponses (answered ?new) = Inr out"
  proof (intro allI impI)
    fix out
    assume "res = Inr out"
    with res(2) obtain responses where p: "promiseAll env (map fst requests) outcomes = Inr responses"
        and n: "normalizeResponses responses = Inr out"
      by (cases "promiseAll env (map fst requests) outcomes") auto
    from p promiseAll_Inr_iff [of env "map fst requests" outcomes]
    have "rejections (map fst requests) outcomes = []" by blast
    with new2(4) have rn: "requestedNodes ?new = map fst requests"
      by (simp add: requestedNodes_FindBroker)
    from promiseAll_Inr [OF p] new2(2) n
    have "normalizeResponses (answered ?new) = Inr out"
      by (simp add: answered_FindBroker)
    with rn nodes show "distinct (requestedNodes ?new)
        \<and> set (requestedNodes ?new) = leaders this topics
        \<and> normalizeResponses (answered ?new) = Inr out"
      by simp
  qed
  from a b c show ?thesis by blast
qed


lemma reduce_indexTopic_total:
  assumes "metadata this = Some md" "topicMetadata md = Some tms"
    and "\<forall>td\<in>set topics. \<forall>p\<in>set (td_partitions td). \<forall>m.
           partitionMetadataOf this (td_topic td) (pd_partition p) = Some m \<longrightarrow> leader m \<noteq> None"
  shows "\<exists>acc'. reduceE (indexTopic this) topics acc = Inr acc'"
  using assms(3)
proof (induction topics arbitrary: acc)
  case Nil
  show ?case by simp
next
  case (Cons td topics)
  from loaded_findTopicPartitionMetadata [OF assms(1,2)]
  obtain pms where pms: "findTopicPartitionMetadata this (td_topic td) = Inr pms" ..
  note eqs = findLeaderForPartitions_Inr [OF pms, of "map pd_partition (td_partitions td)"]
  from Cons.prems eqs
  have "\<not> (\<exists>i\<in>set (map pd_partition (td_partitions td)).
            \<exists>m. find (\<lambda>p. partitionId p = i) pms = Some m \<and> leader m = None)"
    by auto
  then have "\<not> (\<exists>e. reduceE (leaderStep pms (td_topic td))
                      (map pd_partition (td_partitions td)) [] = Inl e)"
    by (simp only: reduce_leaderStep_Inl_iff) simp
  then obtain ppl where
      "reduceE (leaderStep pms (td_topic td)) (map pd_partition (td_partitions td)) [] = Inr ppl"
    by (cases "reduceE (leaderStep pms (td_topic td)) (map pd_partition (td_partitions td)) []")
       auto
  with eqs have
      "findLeaderForPartitions this (td_topic td) (map pd_partition (td_partitions td)) = Inr ppl"
    by simp
  then obtain acc1 where step: "indexTopic this acc td = Inr acc1"
    by (simp add: indexTopic_def Let_def)
  from Cons.prems have "\<forall>td\<in>set topics. \<forall>p\<in>set (td_partitions td). \<forall>m.
           partitionMetadataOf this (td_topic td) (pd_partition p) = Some m \<longrightarrow> leader m \<noteq> None"
    by simp
  from Cons.IH [OF this, of acc1] step show ?case by simp
qed

lemma settleRequests_total:
  assumes "\<forall>np\<in>set requests. \<exists>req. listOffsetsTopics tc (snd np) = Inr req"
    and "\<forall>np\<in>set requests. \<exists>b. pool_findBroker env (fst np) = Inr (Some b)
           \<and> (\<forall>lvl req. \<exists>rs. broker_listOffsets env b lvl req = Inr rs
                  \<and> (\<forall>r\<in>set rs. rs_topic r \<notin> set object_prototype_names))"
  shows "\<exists>this' outcomes. settleRequests env tc this requests = (this', outcomes)
     \<and> rejections (map fst requests) outcomes = []
     \<and> (\<forall>r\<in>set (concat (fulfilled outcomes)). rs_topic r \<notin> set object_prototype_names)"
  using assms
proof (induction requests arbitrary: this)
  case Nil
  show ?case by simp
next
  case (Cons np rest)
  from Cons.prems(1) obtain req where req: "listOffsetsTopics tc (snd np) = Inr req"
    by auto
  from Cons.prems(2) obtain b where b: "pool_findBroker env (fst np) = Inr (Some b)"
      and ans: "\<forall>lvl req. \<exists>rs. broker_listOffsets env b lvl req = Inr rs
                  \<and> (\<forall>r\<in>set rs. rs_topic r \<notin> set object_prototype_names)"
    by auto
  from ans obtain rs where rs: "broker_listOffsets env b (isolationLevel this) req = Inr rs"
      and names: "\<forall>r\<in>set rs. rs_topic r \<notin> set object_prototype_names"
    by blast
  have "\<exists>this1. settleRequest env tc this np = (this1, Inr rs)"
    by (simp add: settleRequest_def findBrokerSettled_def Let_def b req rs)
  then obtain this1 where ro: "settleRequest env tc this np = (this1, Inr rs)" ..
  from Cons.prems have "\<forall>np\<in>set rest. \<exists>req. listOffsetsTopics tc (snd np) = Inr req"
      "\<forall>np\<in>set rest. \<exists>b. pool_findBroker env (fst np) = Inr (Some b)
           \<and> (\<forall>lvl req. \<exists>rs. broker_listOffsets env b lvl req = Inr rs
                  \<and> (\<forall>r\<in>set rs. rs_topic r \<notin> set object_prototype_names))"
    by simp_all
  from Cons.IH [OF this, of this1] obtain this2 outcomes
    where "settleRequests env tc this1 rest = (this2, outcomes)"
      "rejections (map fst rest) outcomes = []"
      "\<forall>r\<in>set (concat (fulfilled outcomes)). rs_topic r \<notin> set object_prototype_names"
    by blast
  with ro names show ?case by auto
qed

text \<open>
  \<open>fetchTopicsOffset\<close> returns a result when the snapshot is loaded, every requested
  partition that has a metadata entry has a leader, the brokers that lead requested
  partitions are found and answer, and no response names a topic that
  \<open>Object.prototype\<close> defines a property for.
\<close>

lemma fetchTopicsOffset_returns:
  assumes "metadata this = Some md" "topicMetadata md = Some tms"
    and "\<forall>td\<in>set topics. \<forall>p\<in>set (td_partitions td). \<forall>m.
           partitionMetadataOf this (td_topic td) (pd_partition p) = Some m \<longrightarrow> leader m \<noteq> None"
    and "\<forall>n\<in>leaders this topics. \<exists>b. pool_findBroker env n = Inr (Some b)
           \<and> (\<forall>lvl req. \<exists>rs. broker_listOffsets env b lvl req = Inr rs
                  \<and> (\<forall>r\<in>set rs. rs_topic r \<notin> set object_prototype_names))"
  shows "\<exists>this' out. fetchTopicsOffset env this topics = (this', Inr out)"
proof -
  from reduce_indexTopic_total [OF assms(1,2,3), of "([], \<lparr>tc_own = [], tc_proto = None\<rparr>)"]
  obtain acc where acc: "reduceE (indexTopic this) topics ([], \<lparr>tc_own = [], tc_proto = None\<rparr>)
      = Inr acc" ..
  obtain ppb tc where pt: "acc = (ppb, tc)" by (cases acc)
  with acc have idx: "reduceE (indexTopic this) topics ([], \<lparr>tc_own = [], tc_proto = None\<rparr>)
      = Inr (ppb, tc)"
    by simp
  define requests where "requests = own_entries int_array_index ppb"
  define started where
    "started = this\<lparr>calls := calls this @ map (\<lambda>np. FindBroker (fst np)) requests\<rparr>"
  have reqs: "\<forall>np\<in>set requests. \<exists>req. listOffsetsTopics tc (snd np) = Inr req"
  proof
    fix np
    assume "np \<in> set requests"
    then have "(fst np, snd np) \<in> set (own_entries int_array_index ppb)"
      by (simp add: requests_def)
    from index_request [OF idx this]
    show "\<exists>req. listOffsetsTopics tc (snd np) = Inr req" by blast
  qed
  have brokers: "\<forall>np\<in>set requests. \<exists>b. pool_findBroker env (fst np) = Inr (Some b)
           \<and> (\<forall>lvl req. \<exists>rs. broker_listOffsets env b lvl req = Inr rs
                  \<and> (\<forall>r\<in>set rs. rs_topic r \<notin> set object_prototype_names))"
  proof
    fix np
    assume "np \<in> set requests"
    then have "fst np \<in> leaders this topics"
      using index_nodes(2) [OF idx] by (auto simp: requests_def)
    with assms(4) show "\<exists>b. pool_findBroker env (fst np) = Inr (Some b)
           \<and> (\<forall>lvl req. \<exists>rs. broker_listOffsets env b lvl req = Inr rs
                  \<and> (\<forall>r\<in>set rs. rs_topic r \<notin> set object_prototype_names))"
      by blast
  qed
  from settleRequests_total [OF reqs brokers, of started]
  obtain this' outcomes where run: "settleRequests env tc started requests = (this', outcomes)"
      and ok: "rejections (map fst requests) outcomes = []"
      and names: "\<forall>r\<in>set (concat (fulfilled outcomes)). rs_topic r \<notin> set object_prototype_names"
    by blast
  from ok have p: "promiseAll env (map fst requests) outcomes = Inr (fulfilled outcomes)"
    by (simp add: promiseAll_def)
  from names normalizeResponses_Inl_iff [of "fulfilled outcomes"]
  obtain out where n: "normalizeResponses (fulfilled outcomes) = Inr out"
    by (cases "normalizeResponses (fulfilled outcomes)") auto
  from idx run p n have "fetchTopicsOffset env this topics = (this', Inr out)"
    by (simp add: fetchTopicsOffset_def Let_def requests_def [symmetric] started_def [symmetric])
  then show ?thesis by blast
qed

subsection \<open>Scenario S2\<close>

text \<open>Scenario S2, evaluated step by step for brokers that are found and answer.\<close>

lemma scenario_index:
  "reduceE (indexTopic scenario_cluster) scenario_topics ([], \<lparr>tc_own = [], tc_proto = None\<rparr>)
     = Inr ([(1, [(''t'', [\<lparr>pd_partition = 0\<rparr>])]), (2, [(''t'', [\<lparr>pd_partition = 1\<rparr>])])],
            \<lparr>tc_own = [(''t'', True)], tc_proto = None\<rparr>)"
  by code_simp

lemma scenario_entries:
  "own_entries int_array_index
     [(1, [(''t'', [\<lparr>pd_partition = 0\<rparr>])]), (2 :: int, [(''t'', [\<lparr>pd_partition = 1\<rparr>])])]
   = [(1, [(''t'', [\<lparr>pd_partition = 0\<rparr>])]), (2, [(''t'', [\<lparr>pd_partition = 1\<rparr>])])]"
  by code_simp

lemma scenario_request:
  "listOffsetsTopics \<lparr>tc_own = [(''t'', True)], tc_proto = None\<rparr> [(''t'', [\<lparr>pd_partition = i\<rparr>])]
     = Inr [\<lparr>tr_topic = ''t'', tr_partitions = [\<lparr>pr_partition = i, pr_timestamp = - 2\<rparr>]\<rparr>]"
proof -
  have "own_entries array_index [(''t'', [\<lparr>pd_partition = i\<rparr>])] = [(''t'', [\<lparr>pd_partition = i\<rparr>])]"
    by (simp add: own_entries_def array_index_def is_digit_def)
  then show ?thesis
    by (simp add: listOffsetsTopics_def addDefaultOffset_def configuredFromBeginning_def
          defaultOffset_values)
qed

lemma scenario_settleRequests:
  assumes "pool_findBroker env = (\<lambda>nodeId. Inr (Some (Broker nodeId)))"
    and "\<And>b lvl i. broker_listOffsets env b lvl
            [\<lparr>tr_topic = ''t'', tr_partitions = [\<lparr>pr_partition = i, pr_timestamp = - 2\<rparr>]\<rparr>]
          = Inr [\<lparr>rs_topic = ''t'', rs_partitions = [answer i]\<rparr>]"
  shows "settleRequests env \<lparr>tc_own = [(''t'', True)], tc_proto = None\<rparr>
      (scenario_cluster\<lparr>calls := calls scenario_cluster @ [FindBroker 1, FindBroker 2]\<rparr>)
      [(1, [(''t'', [\<lparr>pd_partition = 0\<rparr>])]), (2, [(''t'', [\<lparr>pd_partition = 1\<rparr>])])]
   = (scenario_cluster\<lparr>calls :=
          [FindBroker 1, FindBroker 2,
           ListOffsets 1 1
             [\<lparr>tr_topic = ''t'', tr_partitions = [\<lparr>pr_partition = 0, pr_timestamp = - 2\<rparr>]\<rparr>]
             (Inr [\<lparr>rs_topic = ''t'', rs_partitions = [answer 0]\<rparr>]),
           ListOffsets 2 1
             [\<lparr>tr_topic = ''t'', tr_partitions = [\<lparr>pr_partition = 1, pr_timestamp = - 2\<rparr>]\<rparr>]
             (Inr [\<lparr>rs_topic = ''t'', rs_partitions = [answer 1]\<rparr>])]\<rparr>,
      [Inr [\<lparr>rs_topic = ''t'', rs_partitions = [answer 0]\<rparr>],
       Inr [\<lparr>rs_topic = ''t'', rs_partitions = [answer 1]\<rparr>]])"
  by (simp add: settleRequest_def findBrokerSettled_def Let_def assms scenario_request
        scenario_cluster_def)

lemma scenario_promiseAll:
  "promiseAll env [1, 2] [Inr a, Inr b] = Inr [a, b]"
  by (simp add: promiseAll_def)

lemma scenario_normalize:
  "normalizeResponses
     [[\<lparr>rs_topic = ''t'', rs_partitions = [a]\<rparr>], [\<lparr>rs_topic = ''t'', rs_partitions = [b]\<rparr>]]
   = Inr [\<lparr>to_topic = ''t'', to_partitions = [projectOffset a, projectOffset b]\<rparr>]"
proof -
  have e: "\<And>v. own_entries array_index [(''t'', v :: PartitionResponse list)] = [(''t'', v)]"
    by (simp add: own_entries_def array_index_def is_digit_def)
  have t: "''t'' \<notin> set object_prototype_names"
    by (simp add: object_prototype_names_def)
  show ?thesis
    by (simp add: normalizeResponses_def flatten_def mergeTopics_def own_entries_def [of _ "[]"] e t
          projectOffset_def)
qed

lemma scenario_fetch:
  assumes "pool_findBroker env = (\<lambda>nodeId. Inr (Some (Broker nodeId)))"
    and "\<And>b lvl i. broker_listOffsets env b lvl
            [\<lparr>tr_topic = ''t'', tr_partitions = [\<lparr>pr_partition = i, pr_timestamp = - 2\<rparr>]\<rparr>]
          = Inr [\<lparr>rs_topic = ''t'', rs_partitions = [answer i]\<rparr>]"
  shows "fetchTopicsOffset env scenario_cluster scenario_topics
   = (scenario_cluster\<lparr>calls :=
          [FindBroker 1, FindBroker 2,
           ListOffsets 1 1
             [\<lparr>tr_topic = ''t'', tr_partitions = [\<lparr>pr_partition = 0, pr_timestamp = - 2\<rparr>]\<rparr>]
             (Inr [\<lparr>rs_topic = ''t'', rs_partitions = [answer 0]\<rparr>]),
           ListOffsets 2 1
             [\<lparr>tr_topic = ''t'', tr_partitions = [\<lparr>pr_partition = 1, pr_timestamp = - 2\<rparr>]\<rparr>]
             (Inr [\<lparr>rs_topic = ''t'', rs_partitions = [answer 1]\<rparr>])]\<rparr>,
      Inr [\<lparr>to_topic = ''t'',
            to_partitions = [projectOffset (answer 0), projectOffset (answer 1)]\<rparr>])"
  by (simp only: fetchTopicsOffset_def scenario_index scenario_entries Let_def
        list.map fst_conv
        scenario_settleRequests [of env answer, OF assms] scenario_promiseAll scenario_normalize
        sum.case prod.case)

subsection \<open>A topic named like a property of \<open>Object.prototype\<close>\<close>

lemma constructor_index:
  "reduceE (indexTopic constructor_cluster) constructor_topics ([], \<lparr>tc_own = [], tc_proto = None\<rparr>)
     = Inr ([(1, [(''constructor'', [\<lparr>pd_partition = 0\<rparr>, \<lparr>pd_partition = 2\<rparr>])]),
             (2, [(''constructor'', [\<lparr>pd_partition = 1\<rparr>])])],
            \<lparr>tc_own = [(''constructor'', True)], tc_proto = None\<rparr>)"
  by code_simp

lemma constructor_entries:
  "own_entries int_array_index
     [(1 :: int, [(''constructor'', [\<lparr>pd_partition = 0\<rparr>, \<lparr>pd_partition = 2\<rparr>])]),
      (2, [(''constructor'', [\<lparr>pd_partition = 1\<rparr>])])]
   = [(1, [(''constructor'', [\<lparr>pd_partition = 0\<rparr>, \<lparr>pd_partition = 2\<rparr>])]),
      (2, [(''constructor'', [\<lparr>pd_partition = 1\<rparr>])])]"
  by code_simp

lemma constructor_request:
  "listOffsetsTopics \<lparr>tc_own = [(''constructor'', True)], tc_proto = None\<rparr>
       [(''constructor'', [\<lparr>pd_partition = 0\<rparr>, \<lparr>pd_partition = 2\<rparr>])]
     = Inr [\<lparr>tr_topic = ''constructor'',
             tr_partitions = [\<lparr>pr_partition = 0, pr_timestamp = - 2\<rparr>,
                              \<lparr>pr_partition = 2, pr_timestamp = - 2\<rparr>]\<rparr>]"
  "listOffsetsTopics \<lparr>tc_own = [(''constructor'', True)], tc_proto = None\<rparr>
       [(''constructor'', [\<lparr>pd_partition = 1\<rparr>])]
     = Inr [\<lparr>tr_topic = ''constructor'',
             tr_partitions = [\<lparr>pr_partition = 1, pr_timestamp = - 2\<rparr>]\<rparr>]"
proof -
  have e: "\<And>v. own_entries array_index [(''constructor'', v :: PartitionData list)]
      = [(''constructor'', v)]"
    by (simp add: own_entries_def array_index_def is_digit_def)
  show "listOffsetsTopics \<lparr>tc_own = [(''constructor'', True)], tc_proto = None\<rparr>
       [(''constructor'', [\<lparr>pd_partition = 0\<rparr>, \<lparr>pd_partition = 2\<rparr>])]
     = Inr [\<lparr>tr_topic = ''constructor'',
             tr_partitions = [\<lparr>pr_partition = 0, pr_timestamp = - 2\<rparr>,
                              \<lparr>pr_partition = 2, pr_timestamp = - 2\<rparr>]\<rparr>]"
    by (simp add: listOffsetsTopics_def addDefaultOffset_def configuredFromBeginning_def
          defaultOffset_values e)
  show "listOffsetsTopics \<lparr>tc_own = [(''constructor'', True)], tc_proto = None\<rparr>
       [(''constructor'', [\<lparr>pd_partition = 1\<rparr>])]
     = Inr [\<lparr>tr_topic = ''constructor'',
             tr_partitions = [\<lparr>pr_partition = 1, pr_timestamp = - 2\<rparr>]\<rparr>]"
    by (simp add: listOffsetsTopics_def addDefaultOffset_def configuredFromBeginning_def
          defaultOffset_values e)
qed

lemma constructor_settleRequests:
  "settleRequests scenario_env \<lparr>tc_own = [(''constructor'', True)], tc_proto = None\<rparr>
      (constructor_cluster\<lparr>calls := calls constructor_cluster @ [FindBroker 1, FindBroker 2]\<rparr>)
      [(1, [(''constructor'', [\<lparr>pd_partition = 0\<rparr>, \<lparr>pd_partition = 2\<rparr>])]),
       (2, [(''constructor'', [\<lparr>pd_partition = 1\<rparr>])])]
   = (constructor_cluster\<lparr>calls :=
          [FindBroker 1, FindBroker 2,
           ListOffsets 1 1
             [\<lparr>tr_topic = ''constructor'',
               tr_partitions = [\<lparr>pr_partition = 0, pr_timestamp = - 2\<rparr>,
                                \<lparr>pr_partition = 2, pr_timestamp = - 2\<rparr>]\<rparr>]
             (Inr [\<lparr>rs_topic = ''constructor'',
                    rs_partitions =
                      [\<lparr>rp_partition = 0, rp_offset = Some ''X'', rp_errorCode = 0\<rparr>,
                       \<lparr>rp_partition = 2, rp_offset = Some ''Y'', rp_errorCode = 0\<rparr>]\<rparr>]),
           ListOffsets 2 1
             [\<lparr>tr_topic = ''constructor'',
               tr_partitions = [\<lparr>pr_partition = 1, pr_timestamp = - 2\<rparr>]\<rparr>]
             (Inr [\<lparr>rs_topic = ''constructor'',
                    rs_partitions =
                      [\<lparr>rp_partition = 1, rp_offset = Some ''Y'', rp_errorCode = 0\<rparr>]\<rparr>])]\<rparr>,
      [Inr [\<lparr>rs_topic = ''constructor'',
             rs_partitions =
               [\<lparr>rp_partition = 0, rp_offset = Some ''X'', rp_errorCode = 0\<rparr>,
                \<lparr>rp_partition = 2, rp_offset = Some ''Y'', rp_errorCode = 0\<rparr>]\<rparr>],
       Inr [\<lparr>rs_topic = ''constructor'',
             rs_partitions =
               [\<lparr>rp_partition = 1, rp_offset = Some ''Y'', rp_errorCode = 0\<rparr>]\<rparr>]])"
  by (simp add: settleRequest_def findBrokerSettled_def Let_def constructor_request
        constructor_cluster_def scenario_env_def)

lemma constructor_normalize:
  "normalizeResponses ([\<lparr>rs_topic = ''constructor'', rs_partitions = ps\<rparr>] # responses)
     = Inl TypeError"
  by (simp add: normalizeResponses_def flatten_def mergeTopics_def object_prototype_names_def)

text \<open>
  C1. \<open>fetchTopicsOffset\<close> does not return the regrouped responses for a topic named
  \<open>constructor\<close>. With partitions 0 and 2 of that topic led by broker 1 and partition 1
  by broker 2, both brokers being found and answering with offsets, the call for
  \<open>[{topic: 'constructor', partitions: [{partition: 0}, {partition: 1}, {partition: 2}],
  fromBeginning: true}]\<close> looks both brokers up, sends each the request for its
  partitions with timestamp -2, receives the answers, and then fails with a TypeError
  in the merge of the responses.
\<close>

theorem fetchTopicsOffset_constructor_TypeError:
  "fetchTopicsOffset scenario_env constructor_cluster constructor_topics
     = (constructor_cluster\<lparr>calls :=
          [FindBroker 1, FindBroker 2,
           ListOffsets 1 1
             [\<lparr>tr_topic = ''constructor'',
               tr_partitions = [\<lparr>pr_partition = 0, pr_timestamp = - 2\<rparr>,
                                \<lparr>pr_partition = 2, pr_timestamp = - 2\<rparr>]\<rparr>]
             (Inr [\<lparr>rs_topic = ''constructor'',
                    rs_partitions =
                      [\<lparr>rp_partition = 0, rp_offset = Some ''X'', rp_errorCode = 0\<rparr>,
                       \<lparr>rp_partition = 2, rp_offset = Some ''Y'', rp_errorCode = 0\<rparr>]\<rparr>]),
           ListOffsets 2 1
             [\<lparr>tr_topic = ''constructor'',
               tr_partitions = [\<lparr>pr_partition = 1, pr_timestamp = - 2\<rparr>]\<rparr>]
             (Inr [\<lparr>rs_topic = ''constructor'',
                    rs_partitions =
                      [\<lparr>rp_partition = 1, rp_offset = Some ''Y'', rp_errorCode = 0\<rparr>]\<rparr>])]\<rparr>,
        Inl TypeError)"
  by (simp only: fetchTopicsOffset_def constructor_index constructor_entries Let_def
        list.map fst_conv constructor_settleRequests scenario_promiseAll constructor_normalize
        sum.case prod.case)

text \<open>
  C10. The result of \<open>fetchTopicsOffset\<close> (a value or an error) does not depend on the
  error codes in the responses: with the same brokers answering with any other error
  codes it is the same. When the operation returns, every partition of every response,
  whatever its error code and whether or not it has an offset, is in the output entry
  of its topic as \<open>{partition, offset}\<close>.
\<close>

theorem fetchTopicsOffset_ignores_errorCode:
  "snd (fetchTopicsOffset (withErrorCodes f env) this topics)
     = snd (fetchTopicsOffset env this topics)
   \<and> (\<forall>this' out new. fetchTopicsOffset env this topics = (this', Inr out)
          \<and> calls this' = calls this @ new \<longrightarrow>
        (\<forall>r\<in>set (concat (answered new)). \<forall>p\<in>set (rs_partitions r).
           \<exists>e\<in>set out. to_topic e = rs_topic r \<and> projectOffset p \<in> set (to_partitions e)))"
proof (intro conjI allI impI ballI)
  show "snd (fetchTopicsOffset (withErrorCodes f env) this topics)
     = snd (fetchTopicsOffset env this topics)"
    by (rule fetchTopicsOffset_overwrite)
next
  fix this' out new r p
  assume h: "fetchTopicsOffset env this topics = (this', Inr out) \<and> calls this' = calls this @ new"
    and r: "r \<in> set (concat (answered new))" and p: "p \<in> set (rs_partitions r)"
  from h have run: "fetchTopicsOffset env this topics = (this', Inr out)" by simp
  from fetchTopicsOffset_calls [OF run] h have out: "normalizeResponses (answered new) = Inr out"
    by auto
  note n = normalizeResponses_ok [OF out]
  from n r have "rs_topic r \<in> set (map to_topic out)" by simp
  then obtain e where e: "e \<in> set out" "to_topic e = rs_topic r" by auto
  with n have "to_partitions e
      = map projectOffset (partitionsOfTopic (concat (answered new)) (rs_topic r))"
    by simp
  moreover from r p have "p \<in> set (partitionsOfTopic (concat (answered new)) (rs_topic r))"
    by (auto simp: partitionsOfTopic_def)
  ultimately have "projectOffset p \<in> set (to_partitions e)" by simp
  with e show "\<exists>e\<in>set out. to_topic e = rs_topic r \<and> projectOffset p \<in> set (to_partitions e)"
    by blast
qed

theorem fetchTopicsOffset_ignores_errorCode_witness:
  "snd (fetchTopicsOffset (withErrorCodes (\<lambda>p. 3) scenario_env) scenario_cluster scenario_topics)
     = Inr [\<lparr>to_topic = ''t'',
             to_partitions = [\<lparr>po_partition = 0, po_offset = Some ''X''\<rparr>,
                              \<lparr>po_partition = 1, po_offset = Some ''Y''\<rparr>]\<rparr>]
   \<and> fetchTopicsOffset error_code_env scenario_cluster scenario_topics
     = (scenario_cluster\<lparr>calls :=
          [FindBroker 1, FindBroker 2,
           ListOffsets 1 1
             [\<lparr>tr_topic = ''t'', tr_partitions = [\<lparr>pr_partition = 0, pr_timestamp = - 2\<rparr>]\<rparr>]
             (Inr [\<lparr>rs_topic = ''t'',
                    rs_partitions = [\<lparr>rp_partition = 0, rp_offset = None,
                                      rp_errorCode = 3\<rparr>]\<rparr>]),
           ListOffsets 2 1
             [\<lparr>tr_topic = ''t'', tr_partitions = [\<lparr>pr_partition = 1, pr_timestamp = - 2\<rparr>]\<rparr>]
             (Inr [\<lparr>rs_topic = ''t'',
                    rs_partitions = [\<lparr>rp_partition = 1, rp_offset = None,
                                      rp_errorCode = 3\<rparr>]\<rparr>])]\<rparr>,
        Inr [\<lparr>to_topic = ''t'',
              to_partitions = [\<lparr>po_partition = 0, po_offset = None\<rparr>,
                               \<lparr>po_partition = 1, po_offset = None\<rparr>]\<rparr>])
   \<and> (\<exists>e\<in>set [\<lparr>to_topic = ''t'',
                     to_partitions = [\<lparr>po_partition = 0, po_offset = None\<rparr>,
                                      \<lparr>po_partition = 1, po_offset = None\<rparr>]\<rparr>].
          to_topic e = ''t''
          \<and> projectOffset \<lparr>rp_partition = 1, rp_offset = None, rp_errorCode = 3\<rparr>
                \<in> set (to_partitions e))"
proof -
  define answer where "answer = (\<lambda>i :: int.
      \<lparr>rp_partition = i, rp_offset = Some (if i = 0 then ''X'' else ''Y''), rp_errorCode = 0\<rparr>)"
  define answer3 where "answer3 = (\<lambda>i :: int.
      \<lparr>rp_partition = i, rp_offset = None :: string option, rp_errorCode = 3\<rparr>)"
  define new where "new =
          [FindBroker 1, FindBroker 2,
           ListOffsets 1 1
             [\<lparr>tr_topic = ''t'', tr_partitions = [\<lparr>pr_partition = 0, pr_timestamp = - 2\<rparr>]\<rparr>]
             (Inr [\<lparr>rs_topic = ''t'', rs_partitions = [answer3 0]\<rparr>]),
           ListOffsets 2 1
             [\<lparr>tr_topic = ''t'', tr_partitions = [\<lparr>pr_partition = 1, pr_timestamp = - 2\<rparr>]\<rparr>]
             (Inr [\<lparr>rs_topic = ''t'', rs_partitions = [answer3 1]\<rparr>])]"
  define out where "out =
         [\<lparr>to_topic = ''t'',
           to_partitions = [projectOffset (answer3 0), projectOffset (answer3 1)]\<rparr>]"
  have brokers: "pool_findBroker scenario_env = (\<lambda>nodeId. Inr (Some (Broker nodeId)))"
      "pool_findBroker error_code_env = (\<lambda>nodeId. Inr (Some (Broker nodeId)))"
    by (simp_all add: scenario_env_def error_code_env_def)
  have answers: "\<And>b lvl i. broker_listOffsets scenario_env b lvl
            [\<lparr>tr_topic = ''t'', tr_partitions = [\<lparr>pr_partition = i, pr_timestamp = - 2\<rparr>]\<rparr>]
          = Inr [\<lparr>rs_topic = ''t'', rs_partitions = [answer i]\<rparr>]"
    by (simp add: scenario_env_def answer_def)
  have answers3: "\<And>b lvl i. broker_listOffsets error_code_env b lvl
            [\<lparr>tr_topic = ''t'', tr_partitions = [\<lparr>pr_partition = i, pr_timestamp = - 2\<rparr>]\<rparr>]
          = Inr [\<lparr>rs_topic = ''t'', rs_partitions = [answer3 i]\<rparr>]"
    by (simp add: error_code_env_def answer3_def)
  have base: "snd (fetchTopicsOffset scenario_env scenario_cluster scenario_topics)
     = Inr [\<lparr>to_topic = ''t'',
             to_partitions = [\<lparr>po_partition = 0, po_offset = Some ''X''\<rparr>,
                              \<lparr>po_partition = 1, po_offset = Some ''Y''\<rparr>]\<rparr>]"
    by (simp add: scenario_fetch [of scenario_env answer, OF brokers(1) answers]
          projectOffset_def answer_def)
  have run: "fetchTopicsOffset error_code_env scenario_cluster scenario_topics
     = (scenario_cluster\<lparr>calls := new\<rparr>, Inr out)"
    by (simp only: new_def out_def scenario_fetch [of error_code_env answer3, OF brokers(2) answers3])
  have c: "calls (scenario_cluster\<lparr>calls := new\<rparr>) = calls scenario_cluster @ new"
    by (simp add: scenario_cluster_def)
  have r: "\<lparr>rs_topic = ''t'', rs_partitions = [answer3 1]\<rparr> \<in> set (concat (answered new))"
    by (simp add: new_def answered_def)
  have p: "answer3 1 \<in> set (rs_partitions \<lparr>rs_topic = ''t'', rs_partitions = [answer3 1]\<rparr>)"
    by simp
  note inst = fetchTopicsOffset_ignores_errorCode
  from inst [where f = "\<lambda>p. 3" and env = scenario_env and this = scenario_cluster
              and topics = scenario_topics] base
  have a: "snd (fetchTopicsOffset (withErrorCodes (\<lambda>p. 3) scenario_env) scenario_cluster
                scenario_topics)
     = Inr [\<lparr>to_topic = ''t'',
             to_partitions = [\<lparr>po_partition = 0, po_offset = Some ''X''\<rparr>,
                              \<lparr>po_partition = 1, po_offset = Some ''Y''\<rparr>]\<rparr>]"
    by simp
  have "\<exists>e\<in>set out. to_topic e = rs_topic \<lparr>rs_topic = ''t'', rs_partitions = [answer3 1]\<rparr>
          \<and> projectOffset (answer3 1) \<in> set (to_partitions e)"
    by (rule inst [where env = error_code_env and this = scenario_cluster
                     and topics = scenario_topics,
                   THEN conjunct2, rule_format, OF conjI [OF run c] r p])
  then have b: "\<exists>e\<in>set out. to_topic e = ''t'' \<and> projectOffset (answer3 1) \<in> set (to_partitions e)"
    by simp
  from a b run show ?thesis
    by (simp add: new_def out_def answer3_def projectOffset_def)
qed

end
